theory Spec2Isabelle
  imports Main "HOL-Library.AList"
begin

section \<open>types.ts\<close>

text \<open>
  The values and errors that operations produce are of the TypeScript type \<open>any\<close>;
  strings stand for them.
\<close>

type_synonym any = string

datatype DependencyMode = WaitAll | WaitCurrent | Interleave

text \<open>
  \<^verbatim>\<open>type Operation = () => any | Promise<any>\<close>.
  An operation is a closure that the queue calls once. What the queue can observe
  of the call is one of four behaviours: the call returns a plain value, the call
  throws, or the call returns a promise that is later fulfilled or later rejected.
  How long the promise takes is not part of the operation: it is the moment at which
  the event \<open>Settle\<close> below is scheduled.
\<close>

datatype Operation =
    Returns any
  | Throws any
  | Resolves any
  | Rejects any

section \<open>OperationQueue.ts: the data\<close>

text \<open>
  \<^verbatim>\<open>type OperationEntry = [Operation, resolve, reject]\<close>.
  The callbacks \<open>resolve\<close> and \<open>reject\<close> of an entry are those of the promise that
  \<open>enqueue\<close> created and returned; the field \<open>promise\<close> names that promise by its
  number of creation.
\<close>

record OperationEntry =
  operation :: Operation
  promise :: nat

text \<open>
  The fields of the class. Queues are objects with identity; a queue is named by a
  natural number. \<open>dependencies\<close> is a JavaScript \<open>Map\<close>: it keeps insertion order,
  and \<open>set\<close> on a present key replaces the value in place, which is what
  \<open>AList.update\<close> does. The two semaphore fields hold the semaphore's \<open>isSignalled\<close>.
\<close>

record OperationQueue =
  dependencies :: "(nat \<times> DependencyMode) list"
  operations :: "OperationEntry list"
  suspended :: bool
  currentSemaphore :: bool
  allSemaphore :: bool

text \<open>The field initialisers of the class: what \<^verbatim>\<open>new OperationQueue()\<close> yields.\<close>

definition new_OperationQueue :: OperationQueue where
  "new_OperationQueue =
     \<lparr>dependencies = [], operations = [], suspended = True,
      currentSemaphore = True, allSemaphore = True\<rparr>"

section \<open>The asynchronous part of the state\<close>

text \<open>
  \<open>runNext\<close> is an \<^verbatim>\<open>async\<close> function: a call runs synchronously up to its first
  \<^verbatim>\<open>await\<close> and is suspended there; other code runs before it continues. A
  suspended call of \<open>runNext\<close> is an \<open>activation\<close>: the queue it runs on
  (\<open>this\<close>), the entry it has dequeued, and the \<^verbatim>\<open>await\<close> it stands at:
  \<^item> \<open>AwaitDependencies ws\<close>: at \<^verbatim>\<open>await Promise.all(...)\<close>; \<open>ws\<close> are the
    dependency waits that have not resolved yet;
  \<^item> \<open>AwaitOperation\<close>: inside \<open>run\<close>, the operation has been called and the chain
    \<^verbatim>\<open>Promise.resolve(operation()).then(resolve, reject)\<close> has not run its callback yet;
  \<^item> \<open>AwaitRun\<close>: the callback has run; the continuation of
    \<^verbatim>\<open>await this.run(entry)\<close> in \<open>runNext\<close> has not run yet.
\<close>

text \<open>
  A semaphore is named by its queue and by which of the queue's two it is. A dependency
  wait that has not resolved is in one of two phases. \<^verbatim>\<open>await\<close> on a semaphore, which
  is an object with a method \<open>then\<close> and not a promise, does not call \<open>then\<close>: it queues
  a job that will. Until that job has run the wait is a \<open>Thenable\<close>: the semaphore does
  not know of it. Once the job has called \<open>then\<close> on a semaphore that was not signalled,
  the wait is a \<open>Waiter\<close>: a callback that the semaphore holds.
\<close>

datatype gate = Current | All

datatype wait = Thenable "nat \<times> gate" | Waiter "nat \<times> gate"

datatype await_point =
    AwaitDependencies "wait list"
  | AwaitOperation
  | AwaitRun

record activation =
  this :: nat
  entry :: OperationEntry
  at :: await_point

datatype outcome = Fulfilled any | Rejected any

text \<open>
  The whole state: the queue objects, the suspended calls of \<open>runNext\<close>, the number of
  promises \<open>enqueue\<close> has created, the promises whose operation has been called (in
  the order of the calls), and the promises whose \<open>resolve\<close> or \<open>reject\<close> has
  been called, with the value passed (in the order of the calls).
\<close>

record system =
  queues :: "nat \<Rightarrow> OperationQueue"
  activations :: "activation list"
  promises :: nat
  invoked :: "nat list"
  settled :: "(nat \<times> outcome) list"

definition init :: system where
  "init = \<lparr>queues = (\<lambda>_. new_OperationQueue), activations = [], promises = 0,
           invoked = [], settled = []\<rparr>"

section \<open>The semaphores\<close>

text \<open>
  Modelled from the spec: the class \<open>Semaphore\<close> of the package \<open>semaphore\<close>, which
  \<open>OperationQueue.ts\<close> imports and whose source is not part of the repository's files.
  The spec describes it as a gate that is either signalled (open: waiters pass through
  immediately) or reset (closed: waiters block until signalled). So: \<open>reset\<close> closes
  the gate; \<open>signal\<close> opens it and calls every callback registered with it, which
  resolves those waits; \<open>then\<close> resolves the wait at once when the gate is open and
  registers the callback when it is closed.
\<close>

definition isSignalled :: "system \<Rightarrow> nat \<times> gate \<Rightarrow> bool" where
  "isSignalled s w =
     (case snd w of
        Current \<Rightarrow> currentSemaphore (queues s (fst w))
      | All \<Rightarrow> allSemaphore (queues s (fst w)))"

definition set_gate :: "nat \<Rightarrow> gate \<Rightarrow> bool \<Rightarrow> system \<Rightarrow> system" where
  "set_gate q g b s =
     s\<lparr>queues := (queues s)
          (q := (case g of
                   Current \<Rightarrow> (queues s q)\<lparr>currentSemaphore := b\<rparr>
                 | All \<Rightarrow> (queues s q)\<lparr>allSemaphore := b\<rparr>))\<rparr>"

definition release :: "nat \<times> gate \<Rightarrow> activation \<Rightarrow> activation" where
  "release w a =
     (case at a of
        AwaitDependencies ws \<Rightarrow> a\<lparr>at := AwaitDependencies (removeAll (Waiter w) ws)\<rparr>
      | _ \<Rightarrow> a)"

definition signal :: "nat \<Rightarrow> gate \<Rightarrow> system \<Rightarrow> system" where
  "signal q g s =
     (set_gate q g True s)\<lparr>activations := map (release (q, g)) (activations s)\<rparr>"

definition reset :: "nat \<Rightarrow> gate \<Rightarrow> system \<Rightarrow> system" where
  "reset q g s = set_gate q g False s"

text \<open>
  Modelled from the spec: the method \<open>then\<close> of the same class, called with the callback
  of one dependency wait of an activation. \<open>signalled\<close> is the state of the gate at the
  call.
\<close>

definition register :: "nat \<times> gate \<Rightarrow> bool \<Rightarrow> activation \<Rightarrow> activation" where
  "register w signalled a =
     (case at a of
        AwaitDependencies ws \<Rightarrow>
          a\<lparr>at := AwaitDependencies
                  (if signalled then removeAll (Thenable w) ws
                   else map (\<lambda>x. if x = Thenable w then Waiter w else x) ws)\<rparr>
      | _ \<Rightarrow> a)"

section \<open>OperationQueue.ts: the methods\<close>

text \<open>
  \<^verbatim>\<open>addDependency(queue, mode)\<close>: sets the mode of \<open>queue\<close> in this queue's map and,
  for \<open>Interleave\<close>, the mode of this queue in the other queue's map.
\<close>

definition set_dependency :: "nat \<Rightarrow> nat \<Rightarrow> DependencyMode \<Rightarrow> system \<Rightarrow> system" where
  "set_dependency q other mode s =
     s\<lparr>queues := (queues s)
          (q := (queues s q)\<lparr>dependencies :=
                   AList.update other mode (dependencies (queues s q))\<rparr>)\<rparr>"

definition addDependency :: "nat \<Rightarrow> nat \<Rightarrow> DependencyMode \<Rightarrow> system \<Rightarrow> system" where
  "addDependency q other mode s =
     (let s1 = set_dependency q other mode s
      in if mode = Interleave then set_dependency other q mode s1 else s1)"

text \<open>
  What \<^verbatim>\<open>current()\<close> and \<^verbatim>\<open>all()\<close> hand to the caller's \<^verbatim>\<open>await\<close>.
  \<^verbatim>\<open>current()\<close> is an \<^verbatim>\<open>async\<close> function: when the current semaphore is signalled
  it returns at the check, and its promise is resolved; otherwise it stands at
  \<^verbatim>\<open>await this.currentSemaphore\<close> and its promise follows that semaphore.
  \<^verbatim>\<open>all()\<close> has a comment that announces the same check and a body that makes none:
  it returns the all semaphore, signalled or not, and the caller awaits the semaphore.
\<close>

datatype awaitable = Resolved | Semaphore "nat \<times> gate"

definition current :: "nat \<Rightarrow> system \<Rightarrow> awaitable" where
  "current q s =
     (if currentSemaphore (queues s q) then Resolved else Semaphore (q, Current))"

definition all :: "nat \<Rightarrow> system \<Rightarrow> awaitable" where
  "all q s = Semaphore (q, All)"

text \<open>
  \<^verbatim>\<open>await\<close> of what was handed over: nothing is left to wait for after a resolved
  promise; a semaphore becomes a wait whose \<open>then\<close> is still to be called.
\<close>

definition await_on :: "awaitable \<Rightarrow> wait list" where
  "await_on x = (case x of Resolved \<Rightarrow> [] | Semaphore w \<Rightarrow> [Thenable w])"

text \<open>
  The argument of \<^verbatim>\<open>Promise.all\<close> in \<open>runNext\<close>: one wait per entry of the
  dependency map, on \<open>all()\<close> of the dependency for \<open>WaitAll\<close> and on \<open>current()\<close>
  otherwise. \<open>Promise.all\<close> resolves when every one of them has.
\<close>

definition dependency_wait :: "system \<Rightarrow> nat \<times> DependencyMode \<Rightarrow> wait list" where
  "dependency_wait s d =
     await_on (if snd d = WaitAll then all (fst d) s else current (fst d) s)"

definition dependency_waits :: "nat \<Rightarrow> system \<Rightarrow> wait list" where
  "dependency_waits q s = concat (map (dependency_wait s) (dependencies (queues s q)))"

text \<open>\<^verbatim>\<open>suspend()\<close> and the getter \<^verbatim>\<open>isRunning\<close>.\<close>

definition suspend :: "nat \<Rightarrow> system \<Rightarrow> system" where
  "suspend q s =
     (if suspended (queues s q) then s
      else s\<lparr>queues := (queues s)(q := (queues s q)\<lparr>suspended := True\<rparr>)\<rparr>)"

definition isRunning :: "nat \<Rightarrow> system \<Rightarrow> bool" where
  "isRunning q s = (\<not> suspended (queues s q))"

text \<open>
  \<^verbatim>\<open>runNext()\<close>, the part that runs synchronously in the caller: it dequeues the
  next entry; with none it signals the all semaphore, suspends and returns; otherwise
  it resets both semaphores, starts the dependency waits and is suspended at
  \<^verbatim>\<open>await Promise.all(...)\<close>.
\<close>

definition runNext :: "nat \<Rightarrow> system \<Rightarrow> system" where
  "runNext q s =
     (case operations (queues s q) of
        [] \<Rightarrow> suspend q (signal q All s)
      | e # rest \<Rightarrow>
          (let s1 = s\<lparr>queues := (queues s)(q := (queues s q)\<lparr>operations := rest\<rparr>)\<rparr>;
               s2 = reset q All (reset q Current s1)
           in s2\<lparr>activations := activations s2 @
                   [\<lparr>this = q, entry = e, at = AwaitDependencies (dependency_waits q s2)\<rparr>]\<rparr>))"

text \<open>\<^verbatim>\<open>resume()\<close>.\<close>

definition resume :: "nat \<Rightarrow> system \<Rightarrow> system" where
  "resume q s =
     (if \<not> suspended (queues s q) then s
      else runNext q (s\<lparr>queues := (queues s)(q := (queues s q)\<lparr>suspended := False\<rparr>)\<rparr>))"

text \<open>
  \<^verbatim>\<open>push(operation, resolve, reject)\<close> and \<^verbatim>\<open>enqueue(operation)\<close>: \<open>enqueue\<close>
  creates the promise, and the promise's executor calls \<open>push\<close> with its callbacks.
\<close>

definition push :: "nat \<Rightarrow> OperationEntry \<Rightarrow> system \<Rightarrow> system" where
  "push q e s =
     resume q (s\<lparr>queues := (queues s)
                  (q := (queues s q)\<lparr>operations := operations (queues s q) @ [e]\<rparr>)\<rparr>)"

definition enqueue :: "nat \<Rightarrow> Operation \<Rightarrow> system \<Rightarrow> system" where
  "enqueue q op s =
     push q \<lparr>operation = op, promise = promises s\<rparr> (s\<lparr>promises := Suc (promises s)\<rparr>)"

text \<open>\<^verbatim>\<open>clear()\<close>.\<close>

definition clear :: "nat \<Rightarrow> system \<Rightarrow> system" where
  "clear q s =
     suspend q (s\<lparr>queues := (queues s)(q := (queues s q)\<lparr>operations := []\<rparr>)\<rparr>)"

section \<open>The continuations of \<open>runNext\<close>\<close>

definition waits :: "activation \<Rightarrow> wait list" where
  "waits a = (case at a of AwaitDependencies ws \<Rightarrow> ws | _ \<Rightarrow> [])"

definition the_activation :: "nat \<Rightarrow> system \<Rightarrow> activation option" where
  "the_activation p s = find (\<lambda>a. promise (entry a) = p) (activations s)"

definition drop_activation :: "nat \<Rightarrow> system \<Rightarrow> system" where
  "drop_activation p s =
     s\<lparr>activations := filter (\<lambda>a. promise (entry a) \<noteq> p) (activations s)\<rparr>"

definition move_activation :: "nat \<Rightarrow> await_point \<Rightarrow> system \<Rightarrow> system" where
  "move_activation p pt s =
     s\<lparr>activations :=
          map (\<lambda>a. if promise (entry a) = p then a\<lparr>at := pt\<rparr> else a) (activations s)\<rparr>"

text \<open>
  The job that \<^verbatim>\<open>await\<close> queued for a semaphore: it calls \<open>then\<close> of the semaphore
  \<open>w\<close> for the activation that holds promise \<open>p\<close>.
\<close>

definition then_semaphore :: "nat \<Rightarrow> nat \<times> gate \<Rightarrow> system \<Rightarrow> system" where
  "then_semaphore p w s =
     s\<lparr>activations :=
          map (\<lambda>a. if promise (entry a) = p then register w (isSignalled s w) a else a)
            (activations s)\<rparr>"

text \<open>
  \<open>Promise.all\<close> has resolved: \<open>runNext\<close> calls \<^verbatim>\<open>this.run(entry)\<close>, and \<open>run\<close>
  calls \<^verbatim>\<open>operation()\<close>. When the call throws, the exception leaves \<open>run\<close> before
  \<open>.then(resolve, reject)\<close> is reached: the promise of \<open>run\<close> rejects, the
  \<^verbatim>\<open>await\<close> in \<open>runNext\<close> throws, and \<open>runNext\<close> ends there: neither callback of the
  entry is called, the current semaphore is not signalled, \<open>runNext\<close> is not called
  again. Otherwise the activation waits for the operation's outcome.
\<close>

definition run :: "activation \<Rightarrow> system \<Rightarrow> system" where
  "run a s =
     (let s1 = s\<lparr>invoked := invoked s @ [promise (entry a)]\<rparr>
      in case operation (entry a) of
           Throws e \<Rightarrow> drop_activation (promise (entry a)) s1
         | _ \<Rightarrow> move_activation (promise (entry a)) AwaitOperation s1)"

text \<open>
  The value or error that \<^verbatim>\<open>Promise.resolve(operation())\<close> settles with and that
  \<open>.then(resolve, reject)\<close> hands to \<open>resolve\<close> or to \<open>reject\<close>.
\<close>

fun outcome_of :: "Operation \<Rightarrow> outcome option" where
  "outcome_of (Returns v) = Some (Fulfilled v)"
| "outcome_of (Resolves v) = Some (Fulfilled v)"
| "outcome_of (Rejects e) = Some (Rejected e)"
| "outcome_of (Throws e) = None"

definition settle :: "activation \<Rightarrow> outcome \<Rightarrow> system \<Rightarrow> system" where
  "settle a r s =
     move_activation (promise (entry a)) AwaitRun
       (s\<lparr>settled := settled s @ [(promise (entry a), r)]\<rparr>)"

text \<open>
  The rest of \<open>runNext\<close> after \<^verbatim>\<open>await this.run(entry)\<close>:
  \<^verbatim>\<open>this.currentSemaphore.signal(); this.runNext()\<close>.
\<close>

definition finish :: "activation \<Rightarrow> system \<Rightarrow> system" where
  "finish a s =
     runNext (this a) (signal (this a) Current (drop_activation (promise (entry a)) s))"

section \<open>Executions\<close>

text \<open>
  An execution is a sequence of events: calls of the public methods, from any caller
  and at any moment between two synchronous blocks, and the continuations of the
  suspended calls of \<open>runNext\<close>, each named by the promise of its entry:
  \<^item> \<open>Then p w\<close>: the job that calls \<open>then\<close> of the semaphore \<open>w\<close> for a dependency
    wait of the activation;
  \<^item> \<open>Start p\<close>: the dependency waits have all resolved; the operation is called;
  \<^item> \<open>Settle p\<close>: the operation's outcome is there; \<open>resolve\<close> or \<open>reject\<close> is called;
  \<^item> \<open>Finish p\<close>: \<open>run\<close> has returned; the current semaphore is signalled and
    \<open>runNext\<close> is called again.
  An event that cannot happen in a state (no such activation, or not at that
  \<^verbatim>\<open>await\<close>, or waits still blocked) yields \<open>None\<close>.
\<close>

datatype event =
    AddDependency nat nat DependencyMode
  | Enqueue nat Operation
  | Clear nat
  | Suspend nat
  | Resume nat
  | Then nat "nat \<times> gate"
  | Start nat
  | Settle nat
  | Finish nat

fun step :: "event \<Rightarrow> system \<Rightarrow> system option" where
  "step (AddDependency q other mode) s = Some (addDependency q other mode s)"
| "step (Enqueue q op) s = Some (enqueue q op s)"
| "step (Clear q) s = Some (clear q s)"
| "step (Suspend q) s = Some (suspend q s)"
| "step (Resume q) s = Some (resume q s)"
| "step (Then p w) s =
     (case the_activation p s of
        None \<Rightarrow> None
      | Some a \<Rightarrow> if Thenable w \<in> set (waits a) then Some (then_semaphore p w s) else None)"
| "step (Start p) s =
     (case the_activation p s of
        None \<Rightarrow> None
      | Some a \<Rightarrow> if at a = AwaitDependencies [] then Some (run a s) else None)"
| "step (Settle p) s =
     (case the_activation p s of
        None \<Rightarrow> None
      | Some a \<Rightarrow>
          if at a = AwaitOperation
          then map_option (\<lambda>r. settle a r s) (outcome_of (operation (entry a)))
          else None)"
| "step (Finish p) s =
     (case the_activation p s of
        None \<Rightarrow> None
      | Some a \<Rightarrow> if at a = AwaitRun then Some (finish a s) else None)"

fun exec :: "event list \<Rightarrow> system \<Rightarrow> system option" where
  "exec [] s = Some s"
| "exec (e # es) s = (case step e s of None \<Rightarrow> None | Some s' \<Rightarrow> exec es s')"

text \<open>Observations of a state, used to state the properties.\<close>

definition pending :: "nat \<Rightarrow> system \<Rightarrow> nat list" where
  "pending q s = map promise (operations (queues s q))"

definition in_flight :: "nat \<Rightarrow> system \<Rightarrow> nat list" where
  "in_flight q s =
     map (\<lambda>a. promise (entry a))
       (filter (\<lambda>a. this a = q \<and> at a = AwaitOperation) (activations s))"

definition dequeued :: "nat \<Rightarrow> system \<Rightarrow> nat list" where
  "dequeued q s =
     map (\<lambda>a. promise (entry a)) (filter (\<lambda>a. this a = q) (activations s))"

definition held :: "system \<Rightarrow> nat list" where
  "held s = map (\<lambda>a. promise (entry a)) (activations s)"

text \<open>
  A promise that is \<open>gone\<close> has been created and is neither in a pending list nor
  held by an activation nor settled.
\<close>

definition gone :: "nat \<Rightarrow> system \<Rightarrow> bool" where
  "gone x s \<longleftrightarrow>
     x < promises s \<and> (\<forall>q. x \<notin> set (pending q s)) \<and> x \<notin> set (held s) \<and>
     x \<notin> fst ` set (settled s)"

text \<open>
  The bookkeeping of promises: a pending entry's promise has been created, is pending in
  one place only, and has been neither dequeued nor called nor settled; what is held, called
  or settled has been created.
\<close>

definition well_numbered :: "system \<Rightarrow> bool" where
  "well_numbered s \<longleftrightarrow>
     (\<forall>q p. p \<in> set (pending q s) \<longrightarrow>
        p < promises s \<and> p \<notin> set (held s) \<and> p \<notin> set (invoked s) \<and>
        p \<notin> fst ` set (settled s) \<and> (\<forall>q'. q' \<noteq> q \<longrightarrow> p \<notin> set (pending q' s))) \<and>
     (\<forall>q. distinct (pending q s)) \<and>
     (\<forall>p. p \<in> set (held s) \<longrightarrow> p < promises s) \<and>
     (\<forall>p. p \<in> set (invoked s) \<longrightarrow> p < promises s) \<and>
     (\<forall>p. p \<in> fst ` set (settled s) \<longrightarrow> p < promises s)"

subsection \<open>Dependency waits\<close>

text \<open>The semaphore of a dependency that the dependent queue waits for, by the mode.\<close>

fun gate_of :: "DependencyMode \<Rightarrow> gate" where
  "gate_of WaitAll = All"
| "gate_of WaitCurrent = Current"
| "gate_of Interleave = Current"

text \<open>
  The activation that holds promise \<open>p\<close> has the wait \<open>x\<close>; it \<open>awaits\<close> the
  semaphore \<open>w\<close> when it has a wait on \<open>w\<close> in either phase.
\<close>

definition holds :: "nat \<Rightarrow> wait \<Rightarrow> system \<Rightarrow> bool" where
  "holds p x s \<longleftrightarrow> (case the_activation p s of None \<Rightarrow> False | Some a \<Rightarrow> x \<in> set (waits a))"

definition awaits :: "nat \<Rightarrow> nat \<times> gate \<Rightarrow> system \<Rightarrow> bool" where
  "awaits p w s \<longleftrightarrow> holds p (Thenable w) s \<or> holds p (Waiter w) s"

text \<open>
  The semaphores on which a step calls \<open>signal\<close>. The continuation of \<open>runNext\<close>
  after \<open>run\<close> signals the current semaphore of its queue. \<open>runNext\<close> signals the all
  semaphore when it finds the list empty, whether called from that continuation or from
  \<open>resume\<close>; \<open>push\<close> calls \<open>resume\<close> on a list that is not empty.
\<close>

fun signals :: "event \<Rightarrow> system \<Rightarrow> (nat \<times> gate) list" where
  "signals (Finish p) s =
     (case the_activation p s of
        None \<Rightarrow> []
      | Some a \<Rightarrow>
          (this a, Current) # (if operations (queues s (this a)) = [] then [(this a, All)] else []))"
| "signals (Resume q) s =
     (if suspended (queues s q) \<and> operations (queues s q) = [] then [(q, All)] else [])"
| "signals e s = []"

text \<open>
  The wait of the activation of \<open>p\<close> on the semaphore \<open>w\<close> resolves during the run
  \<open>es\<close> from \<open>s\<close>: at the job that calls \<open>then\<close>, when the semaphore is signalled at
  that moment, or, with the callback registered, at a step that signals the semaphore.
\<close>

fun resolves :: "nat \<Rightarrow> nat \<times> gate \<Rightarrow> event list \<Rightarrow> system \<Rightarrow> bool" where
  "resolves p w [] s = False"
| "resolves p w (e # es) s =
     (case step e s of
        None \<Rightarrow> False
      | Some s' \<Rightarrow>
          (e = Then p w \<and> isSignalled s w) \<or>
          (holds p (Waiter w) s \<and> w \<in> set (signals e s)) \<or>
          resolves p w es s')"

section \<open>Basic facts\<close>

lemma exec_append:
  "exec (es @ fs) s = (case exec es s of None \<Rightarrow> None | Some s' \<Rightarrow> exec fs s')"
  by (induction es arbitrary: s) (auto split: option.splits)

lemma the_activation_SomeD:
  "the_activation p s = Some a \<Longrightarrow> a \<in> set (activations s) \<and> promise (entry a) = p"
  by (auto simp: the_activation_def find_Some_iff)

lemma the_activation_held: "the_activation p s = Some a \<Longrightarrow> p \<in> set (held s)"
  by (auto simp: held_def dest!: the_activation_SomeD)

lemma entry_release [simp]: "entry (release w a) = entry a" "this (release w a) = this a"
  by (simp_all add: release_def split: await_point.splits)

lemma entry_register [simp]: "entry (register w b a) = entry a" "this (register w b a) = this a"
  by (simp_all add: register_def split: await_point.splits)

lemma pending_update [simp]:
  "pending q' (s\<lparr>queues := (queues s)(q := Q)\<rparr>) =
     (if q' = q then map promise (operations Q) else pending q' s)"
  "pending q' (s\<lparr>activations := as\<rparr>) = pending q' s"
  "pending q' (s\<lparr>promises := n\<rparr>) = pending q' s"
  "pending q' (s\<lparr>invoked := is\<rparr>) = pending q' s"
  "pending q' (s\<lparr>settled := ss\<rparr>) = pending q' s"
  by (simp_all add: pending_def)

lemma held_update [simp]:
  "held (s\<lparr>queues := qs\<rparr>) = held s"
  "held (s\<lparr>activations := as\<rparr>) = map (\<lambda>a. promise (entry a)) as"
  "held (s\<lparr>promises := n\<rparr>) = held s"
  "held (s\<lparr>invoked := is\<rparr>) = held s"
  "held (s\<lparr>settled := ss\<rparr>) = held s"
  by (simp_all add: held_def)

lemma set_gate_fields [simp]:
  "activations (set_gate q g b s) = activations s"
  "operations (queues (set_gate q g b s) q') = operations (queues s q')"
  "dependencies (queues (set_gate q g b s) q') = dependencies (queues s q')"
  "suspended (queues (set_gate q g b s) q') = suspended (queues s q')"
  by (simp_all add: set_gate_def split: gate.splits)

lemma reset_fields [simp]:
  "activations (reset q g s) = activations s"
  "operations (queues (reset q g s) q') = operations (queues s q')"
  "dependencies (queues (reset q g s) q') = dependencies (queues s q')"
  "suspended (queues (reset q g s) q') = suspended (queues s q')"
  by (simp_all add: reset_def)

lemma signal_fields [simp]:
  "map (\<lambda>a. promise (entry a)) (activations (signal q g s)) =
     map (\<lambda>a. promise (entry a)) (activations s)"
  "operations (queues (signal q g s) q') = operations (queues s q')"
  "dependencies (queues (signal q g s) q') = dependencies (queues s q')"
  "suspended (queues (signal q g s) q') = suspended (queues s q')"
  by (simp_all add: signal_def comp_def)

lemma suspend_fields [simp]:
  "activations (suspend q s) = activations s"
  "operations (queues (suspend q s) q') = operations (queues s q')"
  "dependencies (queues (suspend q s) q') = dependencies (queues s q')"
  "currentSemaphore (queues (suspend q s) q') = currentSemaphore (queues s q')"
  "allSemaphore (queues (suspend q s) q') = allSemaphore (queues s q')"
  by (simp_all add: suspend_def)

lemma obs_set_gate [simp]:
  "pending q' (set_gate q g b s) = pending q' s"
  "held (set_gate q g b s) = held s"
  "promises (set_gate q g b s) = promises s"
  "invoked (set_gate q g b s) = invoked s"
  "settled (set_gate q g b s) = settled s"
  by (simp_all add: set_gate_def split: gate.splits) (simp_all add: pending_def)

lemma obs_signal [simp]:
  "pending q' (signal q g s) = pending q' s"
  "held (signal q g s) = held s"
  "promises (signal q g s) = promises s"
  "invoked (signal q g s) = invoked s"
  "settled (signal q g s) = settled s"
  by (simp_all add: signal_def comp_def) (simp add: held_def)

lemma obs_reset [simp]:
  "pending q' (reset q g s) = pending q' s"
  "held (reset q g s) = held s"
  "promises (reset q g s) = promises s"
  "invoked (reset q g s) = invoked s"
  "settled (reset q g s) = settled s"
  by (simp_all add: reset_def)

lemma obs_suspend [simp]:
  "pending q' (suspend q s) = pending q' s"
  "held (suspend q s) = held s"
  "promises (suspend q s) = promises s"
  "invoked (suspend q s) = invoked s"
  "settled (suspend q s) = settled s"
  by (simp_all add: suspend_def) (simp add: pending_def)

lemma obs_runNext [simp]:
  "pending q' (runNext q s) = (if q' = q then tl (pending q s) else pending q' s)"
  "held (runNext q s) = held s @ take 1 (pending q s)"
  "promises (runNext q s) = promises s"
  "invoked (runNext q s) = invoked s"
  "settled (runNext q s) = settled s"
  by (auto simp add: runNext_def Let_def pending_def held_def split: list.splits)

lemma obs_resume [simp]:
  "pending q' (resume q s) =
     (if q' = q \<and> suspended (queues s q) then tl (pending q s) else pending q' s)"
  "held (resume q s) = held s @ (if suspended (queues s q) then take 1 (pending q s) else [])"
  "promises (resume q s) = promises s"
  "invoked (resume q s) = invoked s"
  "settled (resume q s) = settled s"
  by (simp_all add: resume_def) (simp_all add: pending_def)

lemma obs_enqueue [simp]:
  "pending q' (enqueue q op s) =
     (if q' = q then (if suspended (queues s q) then tl (pending q s @ [promises s])
                      else pending q s @ [promises s])
      else pending q' s)"
  "held (enqueue q op s) =
     held s @ (if suspended (queues s q) then take 1 (pending q s @ [promises s]) else [])"
  "promises (enqueue q op s) = Suc (promises s)"
  "invoked (enqueue q op s) = invoked s"
  "settled (enqueue q op s) = settled s"
  by (simp_all add: enqueue_def push_def) (simp_all add: pending_def)

lemma obs_clear [simp]:
  "pending q' (clear q s) = (if q' = q then [] else pending q' s)"
  "held (clear q s) = held s"
  "promises (clear q s) = promises s"
  "invoked (clear q s) = invoked s"
  "settled (clear q s) = settled s"
  by (simp_all add: clear_def)

lemma obs_set_dependency [simp]:
  "pending q' (set_dependency q other mode s) = pending q' s"
  "held (set_dependency q other mode s) = held s"
  "promises (set_dependency q other mode s) = promises s"
  "invoked (set_dependency q other mode s) = invoked s"
  "settled (set_dependency q other mode s) = settled s"
  by (simp_all add: set_dependency_def) (simp add: pending_def)

lemma obs_addDependency [simp]:
  "pending q' (addDependency q other mode s) = pending q' s"
  "held (addDependency q other mode s) = held s"
  "promises (addDependency q other mode s) = promises s"
  "invoked (addDependency q other mode s) = invoked s"
  "settled (addDependency q other mode s) = settled s"
  by (simp_all add: addDependency_def Let_def)

lemma obs_drop_activation [simp]:
  "pending q' (drop_activation p s) = pending q' s"
  "held (drop_activation p s) = removeAll p (held s)"
  "promises (drop_activation p s) = promises s"
  "invoked (drop_activation p s) = invoked s"
  "settled (drop_activation p s) = settled s"
  by (simp_all add: drop_activation_def)
     (simp add: held_def removeAll_filter_not_eq filter_map comp_def eq_commute)

lemma obs_move_activation [simp]:
  "pending q' (move_activation p pt s) = pending q' s"
  "held (move_activation p pt s) = held s"
  "promises (move_activation p pt s) = promises s"
  "invoked (move_activation p pt s) = invoked s"
  "settled (move_activation p pt s) = settled s"
  by (simp_all add: move_activation_def)
     (simp add: held_def comp_def if_distrib cong: if_cong)

lemma obs_then_semaphore [simp]:
  "pending q' (then_semaphore p w s) = pending q' s"
  "held (then_semaphore p w s) = held s"
  "promises (then_semaphore p w s) = promises s"
  "invoked (then_semaphore p w s) = invoked s"
  "settled (then_semaphore p w s) = settled s"
  by (simp_all add: then_semaphore_def)
     (simp add: held_def comp_def if_distrib cong: if_cong)

lemma held_runD: "x \<in> set (held (run a s)) \<Longrightarrow> x \<in> set (held s)"
  by (auto simp add: run_def Let_def split: Operation.splits)

lemma obs_run [simp]:
  "pending q' (run a s) = pending q' s"
  "promises (run a s) = promises s"
  "invoked (run a s) = invoked s @ [promise (entry a)]"
  "settled (run a s) = settled s"
  by (auto simp add: run_def Let_def split: Operation.splits)

lemma obs_settle [simp]:
  "pending q' (settle a r s) = pending q' s"
  "held (settle a r s) = held s"
  "promises (settle a r s) = promises s"
  "invoked (settle a r s) = invoked s"
  "settled (settle a r s) = settled s @ [(promise (entry a), r)]"
  by (simp_all add: settle_def)

lemma obs_finish [simp]:
  "pending q' (finish a s) = (if q' = this a then tl (pending (this a) s) else pending q' s)"
  "held (finish a s) = removeAll (promise (entry a)) (held s) @ take 1 (pending (this a) s)"
  "promises (finish a s) = promises s"
  "invoked (finish a s) = invoked s"
  "settled (finish a s) = settled s"
  by (simp_all add: finish_def)

lemma in_tl: "x \<in> set (tl xs) \<Longrightarrow> x \<in> set xs"
  by (cases xs) auto

lemma the_activation_held': "the_activation p s = Some a \<Longrightarrow> promise (entry a) \<in> set (held s)"
  by (auto simp: held_def dest!: the_activation_SomeD)

lemma gone_call:
  "gone x s \<Longrightarrow> gone x (addDependency q other mode s)"
  "gone x s \<Longrightarrow> gone x (enqueue q op s)"
  "gone x s \<Longrightarrow> gone x (clear q s)"
  "gone x s \<Longrightarrow> gone x (suspend q s)"
  "gone x s \<Longrightarrow> gone x (resume q s)"
  by (auto simp: gone_def dest: in_tl in_set_takeD split: if_splits)

lemma gone_run: "gone x s \<Longrightarrow> the_activation p s = Some a \<Longrightarrow> gone x (run a s)"
  by (auto simp: gone_def dest!: the_activation_held' held_runD)

lemma gone_settle: "gone x s \<Longrightarrow> the_activation p s = Some a \<Longrightarrow> gone x (settle a r s)"
  by (auto simp: gone_def dest!: the_activation_held')

lemma gone_finish: "gone x s \<Longrightarrow> gone x (finish a s)"
  by (auto simp: gone_def dest: in_tl in_set_takeD split: if_splits)

lemma gone_then: "gone x s \<Longrightarrow> gone x (then_semaphore p w s)"
  by (simp add: gone_def)

lemma gone_step: "gone x s \<Longrightarrow> step e s = Some s' \<Longrightarrow> gone x s'"
  by (cases e)
     (auto simp: gone_call gone_finish gone_then split: option.splits if_splits
           intro: gone_run gone_settle)

lemma gone_exec: "gone x s \<Longrightarrow> exec es s = Some s' \<Longrightarrow> gone x s'"
  by (induction es arbitrary: s) (auto split: option.splits dest: gone_step)

lemma gone_clear:
  "well_numbered s \<Longrightarrow> x \<in> set (pending q s) \<Longrightarrow> gone x (clear q s)"
  unfolding well_numbered_def gone_def by simp

lemma well_numbered_init: "well_numbered init"
  by (simp add: well_numbered_def init_def pending_def held_def new_OperationQueue_def)

lemma well_numberedI:
  assumes "\<And>q p. p \<in> set (pending q s) \<Longrightarrow> p < promises s"
    and "\<And>q p. p \<in> set (pending q s) \<Longrightarrow> p \<notin> set (held s)"
    and "\<And>q p. p \<in> set (pending q s) \<Longrightarrow> p \<notin> set (invoked s)"
    and "\<And>q p. p \<in> set (pending q s) \<Longrightarrow> p \<notin> fst ` set (settled s)"
    and "\<And>q q' p. q \<noteq> q' \<Longrightarrow> p \<in> set (pending q s) \<Longrightarrow> p \<notin> set (pending q' s)"
    and "\<And>q. distinct (pending q s)"
    and "\<And>p. p \<in> set (held s) \<Longrightarrow> p < promises s"
    and "\<And>p. p \<in> set (invoked s) \<Longrightarrow> p < promises s"
    and "\<And>p. p \<in> fst ` set (settled s) \<Longrightarrow> p < promises s"
  shows "well_numbered s"
  unfolding well_numbered_def
  apply (intro conjI allI impI)
  subgoal by (erule assms)
  subgoal by (erule assms)
  subgoal by (erule assms)
  subgoal by (erule assms)
  subgoal for q p q' using assms(5)[of q q' p] by simp
  subgoal by (rule assms)
  subgoal by (erule assms)
  subgoal by (erule assms)
  subgoal by (erule assms)
  done

lemma well_numberedD:
  assumes "well_numbered s"
  shows "p \<in> set (pending q s) \<Longrightarrow> p < promises s"
    and "p \<in> set (pending q s) \<Longrightarrow> p \<notin> set (held s)"
    and "p \<in> set (pending q s) \<Longrightarrow> p \<notin> set (invoked s)"
    and "p \<in> set (pending q s) \<Longrightarrow> p \<notin> fst ` set (settled s)"
    and "q \<noteq> q' \<Longrightarrow> p \<in> set (pending q s) \<Longrightarrow> p \<notin> set (pending q' s)"
    and "distinct (pending q s)"
    and "p \<in> set (held s) \<Longrightarrow> p < promises s"
    and "p \<in> set (invoked s) \<Longrightarrow> p < promises s"
    and "p \<in> fst ` set (settled s) \<Longrightarrow> p < promises s"
  using assms unfolding well_numbered_def by simp_all

lemma distinct_tl_hd: "distinct xs \<Longrightarrow> x \<in> set (take (Suc 0) xs) \<Longrightarrow> x \<notin> set (tl xs)"
  by (cases xs) auto

lemma wn_dequeue:
  assumes wn: "well_numbered s"
    and pend: "\<And>q'. pending q' s' = (if q' = q then tl (pending q s) else pending q' s)"
    and held: "set (held s') \<subseteq> set (held s) \<union> set (take (Suc 0) (pending q s))"
    and rest: "promises s' = promises s" "invoked s' = invoked s" "settled s' = settled s"
  shows "well_numbered s'"
proof (intro well_numberedI)
  have sub: "\<And>q' p. p \<in> set (pending q' s') \<Longrightarrow> p \<in> set (pending q' s)"
    by (auto simp add: pend dest: in_tl split: if_splits)
  have hd: "\<And>p. p \<in> set (take (Suc 0) (pending q s)) \<Longrightarrow>
              p \<in> set (pending q s) \<and> p \<notin> set (pending q s')"
    using well_numberedD(6)[OF wn, of q] by (auto simp: pend dest: in_set_takeD distinct_tl_hd)
  {
    fix q' p assume a: "p \<in> set (pending q' s')"
    then have m: "p \<in> set (pending q' s)" by (rule sub)
    show "p < promises s'" using well_numberedD(1)[OF wn m] rest by simp
    show "p \<notin> set (invoked s')" using well_numberedD(3)[OF wn m] rest by simp
    show "p \<notin> fst ` set (settled s')" using well_numberedD(4)[OF wn m] rest by simp
    show "p \<notin> set (held s')"
    proof
      assume "p \<in> set (held s')"
      with held have "p \<in> set (held s) \<or> p \<in> set (take (Suc 0) (pending q s))" by auto
      then show False
      proof
        assume "p \<in> set (held s)" with well_numberedD(2)[OF wn m] show False by simp
      next
        assume t: "p \<in> set (take (Suc 0) (pending q s))"
        from hd[OF t] have h1: "p \<in> set (pending q s)" and h2: "p \<notin> set (pending q s')" by simp_all
        from h2 a have "q' \<noteq> q" by auto
        from well_numberedD(5)[OF wn this m] h1 show False by simp
      qed
    qed
  }
  {
    fix q1 q2 p assume ne: "q1 \<noteq> q2" and a: "p \<in> set (pending q1 s')"
    show "p \<notin> set (pending q2 s')"
    proof
      assume "p \<in> set (pending q2 s')"
      then have "p \<in> set (pending q2 s)" by (rule sub)
      with well_numberedD(5)[OF wn ne sub[OF a]] show False by simp
    qed
  }
  {
    fix q' show "distinct (pending q' s')"
      using well_numberedD(6)[OF wn, of q'] well_numberedD(6)[OF wn, of q]
      by (simp add: pend distinct_tl)
  }
  {
    fix p assume "p \<in> set (held s')"
    with held have "p \<in> set (held s) \<or> p \<in> set (take (Suc 0) (pending q s))" by auto
    then show "p < promises s'"
    proof
      assume "p \<in> set (held s)" from well_numberedD(7)[OF wn this] rest show ?thesis by simp
    next
      assume t: "p \<in> set (take (Suc 0) (pending q s))"
      from hd[OF t] have "p \<in> set (pending q s)" by simp
      from well_numberedD(1)[OF wn this] rest show ?thesis by simp
    qed
  }
  {
    fix p assume "p \<in> set (invoked s')"
    then show "p < promises s'" using well_numberedD(8)[OF wn, of p] rest by simp
  }
  {
    fix p assume "p \<in> fst ` set (settled s')"
    then show "p < promises s'" using well_numberedD(9)[OF wn, of p] rest by simp
  }
qed

lemma wn_mono:
  assumes wn: "well_numbered s"
    and pend: "\<And>q'. set (pending q' s') \<subseteq> set (pending q' s)"
    and dist: "\<And>q'. distinct (pending q' s')"
    and held: "set (held s') \<subseteq> set (held s)"
    and prom: "promises s' = promises s"
    and inv: "set (invoked s') \<subseteq> set (invoked s) \<union> set (held s)"
    and setl: "fst ` set (settled s') \<subseteq> fst ` set (settled s) \<union> set (held s)"
  shows "well_numbered s'"
proof (intro well_numberedI)
  have sub: "\<And>q' p. p \<in> set (pending q' s') \<Longrightarrow> p \<in> set (pending q' s)"
    using pend by blast
  {
    fix q' p assume a: "p \<in> set (pending q' s')"
    then have m: "p \<in> set (pending q' s)" by (rule sub)
    show "p < promises s'" using well_numberedD(1)[OF wn m] prom by simp
    show "p \<notin> set (held s')" using well_numberedD(2)[OF wn m] held by blast
    show "p \<notin> set (invoked s')"
      using well_numberedD(2)[OF wn m] well_numberedD(3)[OF wn m] inv by blast
    show "p \<notin> fst ` set (settled s')"
      using well_numberedD(2)[OF wn m] well_numberedD(4)[OF wn m] setl by blast
  }
  {
    fix q1 q2 p assume ne: "q1 \<noteq> q2" and a: "p \<in> set (pending q1 s')"
    show "p \<notin> set (pending q2 s')"
      using well_numberedD(5)[OF wn ne sub[OF a]] sub[of p q2] by blast
  }
  {
    fix q' show "distinct (pending q' s')" by (rule dist)
  }
  {
    fix p assume "p \<in> set (held s')"
    then have "p \<in> set (held s)" using held by blast
    from well_numberedD(7)[OF wn this] show "p < promises s'" using prom by simp
  }
  {
    fix p assume "p \<in> set (invoked s')"
    then have "p \<in> set (invoked s) \<or> p \<in> set (held s)" using inv by blast
    then show "p < promises s'"
      using well_numberedD(7)[OF wn, of p] well_numberedD(8)[OF wn, of p] prom by auto
  }
  {
    fix p assume "p \<in> fst ` set (settled s')"
    then have "p \<in> fst ` set (settled s) \<or> p \<in> set (held s)" using setl by blast
    then show "p < promises s'"
      using well_numberedD(7)[OF wn, of p] well_numberedD(9)[OF wn, of p] prom by auto
  }
qed

lemma wn_alloc:
  assumes wn: "well_numbered s"
    and pend: "\<And>q'. pending q' s' = (if q' = q then pending q s @ [promises s] else pending q' s)"
    and rest: "held s' = held s" "promises s' = Suc (promises s)" "invoked s' = invoked s"
      "settled s' = settled s"
  shows "well_numbered s'"
proof (intro well_numberedI)
  have new: "promises s \<notin> set (held s)" "promises s \<notin> set (invoked s)"
    "promises s \<notin> fst ` set (settled s)" "\<And>q'. promises s \<notin> set (pending q' s)"
    using well_numberedD(1,7,8,9)[OF wn, of "promises s"] by blast+
  have sub: "\<And>q' p. p \<in> set (pending q' s') \<Longrightarrow>
               p \<in> set (pending q' s) \<or> (p = promises s \<and> q' = q)"
    by (auto simp add: pend split: if_splits)
  {
    fix q' p assume a: "p \<in> set (pending q' s')"
    from sub[OF a] show "p < promises s'"
      using well_numberedD(1)[OF wn, of p q'] rest by auto
    from sub[OF a] show "p \<notin> set (held s')"
      using well_numberedD(2)[OF wn, of p q'] new rest by auto
    from sub[OF a] show "p \<notin> set (invoked s')"
      using well_numberedD(3)[OF wn, of p q'] new rest by auto
    from sub[OF a] show "p \<notin> fst ` set (settled s')"
      using well_numberedD(4)[OF wn, of p q'] new(3) rest(4) by metis
  }
  {
    fix q1 q2 p assume ne: "q1 \<noteq> q2" and a: "p \<in> set (pending q1 s')"
    show "p \<notin> set (pending q2 s')"
    proof
      assume b: "p \<in> set (pending q2 s')"
      from sub[OF a] sub[OF b] ne show False
        using well_numberedD(5)[OF wn ne, of p] new(4) by auto
    qed
  }
  {
    fix q' show "distinct (pending q' s')"
      using well_numberedD(6)[OF wn, of q'] well_numberedD(6)[OF wn, of q] new(4)[of q]
      by (simp add: pend)
  }
  {
    fix p assume "p \<in> set (held s')"
    then show "p < promises s'" using well_numberedD(7)[OF wn, of p] rest by simp
  }
  {
    fix p assume "p \<in> set (invoked s')"
    then show "p < promises s'" using well_numberedD(8)[OF wn, of p] rest by simp
  }
  {
    fix p assume "p \<in> fst ` set (settled s')"
    then show "p < promises s'" using well_numberedD(9)[OF wn, of p] rest by simp
  }
qed

lemma wn_runNext: "well_numbered s \<Longrightarrow> well_numbered (runNext q s)"
  by (erule wn_dequeue[where q = q]) simp_all

lemma wn_resume:
  assumes wn: "well_numbered s" shows "well_numbered (resume q s)"
proof (cases "suspended (queues s q)")
  case True
  have "well_numbered (s\<lparr>queues := (queues s)(q := (queues s q)\<lparr>suspended := False\<rparr>)\<rparr>)"
    using wn
    by (rule wn_mono) (simp_all add: pending_def well_numberedD(6)[OF wn, unfolded pending_def])
  then show ?thesis using True by (simp add: resume_def wn_runNext)
next
  case False
  then show ?thesis using wn by (simp add: resume_def)
qed

lemma wn_enqueue:
  assumes wn: "well_numbered s" shows "well_numbered (enqueue q op s)"
  unfolding enqueue_def push_def
  by (rule wn_resume, rule wn_alloc[OF wn, where q = q]) (simp_all add: pending_def)

lemma wn_clear:
  assumes wn: "well_numbered s" shows "well_numbered (clear q s)"
  using wn by (rule wn_mono) (simp_all add: well_numberedD(6)[OF wn])

lemma wn_suspend:
  assumes wn: "well_numbered s" shows "well_numbered (suspend q s)"
  using wn by (rule wn_mono) (simp_all add: well_numberedD(6)[OF wn])

lemma wn_addDependency:
  assumes wn: "well_numbered s" shows "well_numbered (addDependency q other mode s)"
  using wn by (rule wn_mono) (simp_all add: well_numberedD(6)[OF wn])

lemma wn_run:
  assumes wn: "well_numbered s" and a: "the_activation p s = Some a"
  shows "well_numbered (run a s)"
  using wn
  by (rule wn_mono)
     (auto simp add: well_numberedD(6)[OF wn] the_activation_held'[OF a] dest: held_runD)

lemma wn_settle:
  assumes wn: "well_numbered s" and a: "the_activation p s = Some a"
  shows "well_numbered (settle a r s)"
  using wn
  by (rule wn_mono) (auto simp add: well_numberedD(6)[OF wn] the_activation_held'[OF a])

lemma wn_drop:
  assumes wn: "well_numbered s" shows "well_numbered (drop_activation p s)"
  using wn by (rule wn_mono) (auto simp add: well_numberedD(6)[OF wn])

lemma wn_signal:
  assumes wn: "well_numbered s" shows "well_numbered (signal q g s)"
  using wn by (rule wn_mono) (auto simp add: well_numberedD(6)[OF wn])

lemma wn_finish: "well_numbered s \<Longrightarrow> well_numbered (finish a s)"
  unfolding finish_def by (intro wn_runNext wn_signal wn_drop)

lemma wn_then:
  assumes wn: "well_numbered s" shows "well_numbered (then_semaphore p w s)"
  using wn by (rule wn_mono) (simp_all add: well_numberedD(6)[OF wn])

lemma wn_step: "well_numbered s \<Longrightarrow> step e s = Some s' \<Longrightarrow> well_numbered s'"
  by (cases e)
     (auto simp: wn_addDependency wn_enqueue wn_clear wn_suspend wn_resume wn_finish wn_then
           split: option.splits if_splits intro: wn_run wn_settle)

lemma wn_exec: "well_numbered s \<Longrightarrow> exec es s = Some s' \<Longrightarrow> well_numbered s'"
  by (induction es arbitrary: s) (auto split: option.splits dest: wn_step)

lemmas model_defs =
  init_def new_OperationQueue_def isSignalled_def set_gate_def release_def signal_def reset_def
  register_def set_dependency_def addDependency_def current_def all_def await_on_def
  dependency_wait_def dependency_waits_def suspend_def isRunning_def runNext_def resume_def
  push_def enqueue_def clear_def waits_def the_activation_def drop_activation_def
  move_activation_def then_semaphore_def run_def settle_def finish_def pending_def
  in_flight_def dequeued_def held_def

lemma not_invoked_step:
  "gone x s \<Longrightarrow> x \<notin> set (invoked s) \<Longrightarrow> step e s = Some s' \<Longrightarrow> x \<notin> set (invoked s')"
  by (cases e) (auto simp: gone_def split: option.splits if_splits dest!: the_activation_held')

lemma not_invoked_exec:
  "gone x s \<Longrightarrow> x \<notin> set (invoked s) \<Longrightarrow> exec es s = Some s' \<Longrightarrow> x \<notin> set (invoked s')"
proof (induction es arbitrary: s)
  case Nil
  then show ?case by simp
next
  case (Cons e es)
  from Cons.prems(3) obtain s1 where s1: "step e s = Some s1" and rest: "exec es s1 = Some s'"
    by (auto split: option.splits)
  from Cons.prems(1) s1 have "gone x s1" by (rule gone_step)
  moreover from Cons.prems(1,2) s1 have "x \<notin> set (invoked s1)" by (rule not_invoked_step)
  ultimately show ?case using rest by (rule Cons.IH)
qed

lemma reachable_well_numbered: "exec es init = Some s \<Longrightarrow> well_numbered s"
  using well_numbered_init by (rule wn_exec)

lemma clear_frame:
  "queues (clear q s) = (queues s)(q := (queues s q)\<lparr>operations := [], suspended := True\<rparr>)"
  "activations (clear q s) = activations s"
  by (auto simp: clear_def suspend_def fun_eq_iff)

lemma find_move:
  "find (\<lambda>a. promise (entry a) = p)
     (map (\<lambda>a. if promise (entry a) = p then a\<lparr>at := pt\<rparr> else a) xs) =
   map_option (\<lambda>a. a\<lparr>at := pt\<rparr>) (find (\<lambda>a. promise (entry a) = p) xs)"
  by (induction xs) auto

lemma the_activation_move:
  "the_activation p (move_activation p pt s) =
     map_option (\<lambda>a. a\<lparr>at := pt\<rparr>) (the_activation p s)"
  by (simp add: the_activation_def move_activation_def find_move)

lemma the_activation_other_fields [simp]:
  "the_activation p (s\<lparr>settled := x\<rparr>) = the_activation p s"
  "the_activation p (s\<lparr>invoked := y\<rparr>) = the_activation p s"
  "the_activation p (s\<lparr>queues := z\<rparr>) = the_activation p s"
  "the_activation p (clear q s) = the_activation p s"
  by (simp_all add: the_activation_def clear_frame)

section \<open>Entries discarded by \<open>clear()\<close>\<close>

text \<open>
  Claim C10. An entry that is pending when \<open>clear()\<close> is called has not been called
  and its promise has not been settled; \<open>clear()\<close> itself calls no callback; and in
  every execution that follows, the promise \<open>enqueue\<close> returned for the entry is
  never settled, neither fulfilled nor rejected.
\<close>

theorem discarded_promise_never_settles:
  assumes reach: "exec es init = Some s"
    and p: "p \<in> set (pending q s)"
    and run: "exec fs (clear q s) = Some s'"
  shows "p \<notin> set (invoked s) \<and> p \<notin> fst ` set (settled s) \<and>
         settled (clear q s) = settled s \<and> (\<forall>r. (p, r) \<notin> set (settled s'))"
proof -
  have wn: "well_numbered s" using reach by (rule reachable_well_numbered)
  have "gone p (clear q s)" using wn p by (rule gone_clear)
  then have "gone p s'" using run by (rule gone_exec)
  then have "p \<notin> fst ` set (settled s')" by (simp add: gone_def)
  then have "\<forall>r. (p, r) \<notin> set (settled s')" by force
  then show ?thesis
    using well_numberedD(3)[OF wn p] well_numberedD(4)[OF wn p] by simp
qed

theorem discarded_promise_never_settles_witness:
  "\<exists>s s'. exec [Enqueue 0 (Resolves ''a''), Enqueue 0 (Rejects ''b'')] init = Some s
     \<and> pending 0 s = [1]
     \<and> exec [Start 0, Settle 0, Finish 0, Enqueue 0 (Returns ''c''), Start 2, Settle 2, Finish 2]
           (clear 0 s) = Some s'
     \<and> settled s' = [(0, Fulfilled ''a''), (2, Fulfilled ''c'')]
     \<and> (1, Rejected ''b'') \<notin> set (settled s')
     \<and> activations s' = [] \<and> pending 0 s' = []"
proof -
  define s where "s = the (exec [Enqueue 0 (Resolves ''a''), Enqueue 0 (Rejects ''b'')] init)"
  define s' where
    "s' = the (exec [Start 0, Settle 0, Finish 0, Enqueue 0 (Returns ''c''), Start 2, Settle 2,
                     Finish 2] (clear 0 s))"
  have s: "exec [Enqueue 0 (Resolves ''a''), Enqueue 0 (Rejects ''b'')] init = Some s"
    and pend: "pending 0 s = [1]"
    unfolding s_def by (simp_all add: model_defs)
  have s': "exec [Start 0, Settle 0, Finish 0, Enqueue 0 (Returns ''c''), Start 2, Settle 2,
                  Finish 2] (clear 0 s) = Some s'"
    and st: "settled s' = [(0, Fulfilled ''a''), (2, Fulfilled ''c'')]"
    and idle: "activations s' = []" "pending 0 s' = []"
    unfolding s'_def s_def by (simp_all add: model_defs)
  have "1 \<in> set (pending 0 s)" using pend by simp
  from discarded_promise_never_settles[OF s this s']
  have "(1, Rejected ''b'') \<notin> set (settled s')" by blast
  with s pend s' st idle show ?thesis by blast
qed

section \<open>Facts about the semaphores and about dequeuing\<close>

lemma isSignalled_set_gate [simp]:
  "isSignalled (set_gate q g b s) w = (if w = (q, g) then b else isSignalled s w)"
  by (cases w; cases g; cases "snd w") (auto simp: isSignalled_def set_gate_def)

lemma isSignalled_update [simp]:
  "isSignalled (s\<lparr>activations := x\<rparr>) w = isSignalled s w"
  "isSignalled (s\<lparr>promises := n\<rparr>) w = isSignalled s w"
  "isSignalled (s\<lparr>invoked := y\<rparr>) w = isSignalled s w"
  "isSignalled (s\<lparr>settled := z\<rparr>) w = isSignalled s w"
  "isSignalled (s\<lparr>queues := (queues s)(q := (queues s q)\<lparr>operations := os\<rparr>)\<rparr>) w = isSignalled s w"
  "isSignalled (s\<lparr>queues := (queues s)(q := (queues s q)\<lparr>suspended := b\<rparr>)\<rparr>) w = isSignalled s w"
  "isSignalled (s\<lparr>queues := (queues s)(q := (queues s q)\<lparr>dependencies := ds\<rparr>)\<rparr>) w = isSignalled s w"
  by (auto simp: isSignalled_def split: gate.splits)

lemma isSignalled_basic [simp]:
  "isSignalled (signal q g s) w = (w = (q, g) \<or> isSignalled s w)"
  "isSignalled (reset q g s) w = (w \<noteq> (q, g) \<and> isSignalled s w)"
  "isSignalled (suspend q s) w = isSignalled s w"
  "isSignalled (set_dependency q other mode s) w = isSignalled s w"
  "isSignalled (drop_activation p s) w = isSignalled s w"
  "isSignalled (move_activation p pt s) w = isSignalled s w"
  by (auto simp: signal_def reset_def suspend_def set_dependency_def drop_activation_def
        move_activation_def)

lemma waits_release [simp]: "waits (release w a) = removeAll (Waiter w) (waits a)"
  by (simp add: waits_def release_def split: await_point.splits)

lemma activations_basic [simp]:
  "activations (signal q g s) = map (release (q, g)) (activations s)"
  "activations (set_dependency q other mode s) = activations s"
  "activations (addDependency q other mode s) = activations s"
  by (simp_all add: signal_def set_gate_def set_dependency_def addDependency_def Let_def)

lemma dependency_wait_gates:
  assumes "\<And>q. currentSemaphore (queues s' q) = currentSemaphore (queues s q)"
    and "\<And>q. allSemaphore (queues s' q) = allSemaphore (queues s q)"
  shows "dependency_wait s' d = dependency_wait s d"
  using assms
  by (simp add: dependency_wait_def all_def current_def)

lemma runNext_dequeues:
  assumes "operations (queues s q) = e # rest"
  shows "activations (runNext q s) = activations s @
           [\<lparr>this = q, entry = e,
             at = AwaitDependencies
                    (concat (map (dependency_wait (reset q All (reset q Current s)))
                                 (dependencies (queues s q))))\<rparr>]"
proof -
  let ?s1 = "s\<lparr>queues := (queues s)(q := (queues s q)\<lparr>operations := rest\<rparr>)\<rparr>"
  have "dependency_wait (reset q All (reset q Current ?s1)) =
        dependency_wait (reset q All (reset q Current s))"
    by (rule ext, rule dependency_wait_gates) (simp_all add: reset_def set_gate_def)
  then show ?thesis
    using assms by (simp add: runNext_def Let_def dependency_waits_def)
qed

lemma addDependency_Interleave:
  "map_of (dependencies (queues (addDependency q other Interleave s) q)) other = Some Interleave"
  "map_of (dependencies (queues (addDependency q other Interleave s) other)) q = Some Interleave"
  by (simp_all add: addDependency_def set_dependency_def Let_def update_conv')

lemma step_Start:
  assumes "step (Start p) s = Some s'"
  shows "\<exists>a. the_activation p s = Some a \<and> at a = AwaitDependencies [] \<and>
             invoked s' = invoked s @ [p]"
proof -
  from assms obtain a where a: "the_activation p s = Some a" and at: "at a = AwaitDependencies []"
    and s': "s' = run a s"
    by (auto split: option.splits if_splits)
  from a have "promise (entry a) = p" by (simp add: the_activation_SomeD)
  with a at s' show ?thesis by simp
qed

section \<open>Two run loops on one queue, and operations that throw\<close>

text \<open>
  Claim C1 (fails on the code). \<open>clear()\<close> marks the queue suspended while the call of
  \<open>runNext\<close> that holds the first operation is still alive, and \<open>runNext\<close> never reads
  the flag; the next \<open>enqueue\<close> therefore finds the queue suspended and starts a second
  call of \<open>runNext\<close>. Both operations are then in flight together, and the second can
  settle before the first. The same happens with \<open>suspend()\<close> in place of \<open>clear()\<close>.
\<close>

theorem two_operations_in_flight_after_clear:
  "(\<exists>s s'. exec [Enqueue 0 (Resolves ''a''), Clear 0, Enqueue 0 (Resolves ''b''),
                   Start 0, Start 1] init = Some s
            \<and> in_flight 0 s = [0, 1]
            \<and> exec [Settle 1, Settle 0] s = Some s'
            \<and> settled s' = [(1, Fulfilled ''b''), (0, Fulfilled ''a'')])
   \<and> (\<exists>s. exec [Enqueue 0 (Resolves ''a''), Suspend 0, Enqueue 0 (Resolves ''b''),
                  Start 0, Start 1] init = Some s
            \<and> in_flight 0 s = [0, 1])"
  by (simp add: model_defs)

text \<open>
  Claim C4 (fails on the code). After \<open>suspend()\<close> the getter \<open>isRunning\<close> is false, but
  when the running operation finishes, \<open>runNext\<close> dequeues and calls the next pending
  entry all the same.
\<close>

theorem suspended_queue_starts_next_entry:
  "\<exists>s. exec [Enqueue 0 (Returns ''a''), Enqueue 0 (Returns ''b''), Suspend 0,
              Start 0, Settle 0, Finish 0, Start 1] init = Some s
       \<and> \<not> isRunning 0 s \<and> invoked s = [0, 1] \<and> in_flight 0 s = [1]"
  by (simp add: model_defs)

text \<open>
  Claim C5 (the first half holds, the invariant fails on the code). A new queue has both
  semaphores signalled. But \<open>resume()\<close> after \<open>suspend()\<close>, and likewise the run loop
  that \<open>enqueue\<close> starts after \<open>clear()\<close>, reach the empty-list branch of \<open>runNext\<close>
  and signal the all semaphore while an operation of the queue is in flight.
\<close>

theorem all_semaphore_signalled_while_in_flight:
  "currentSemaphore (queues init q) \<and> allSemaphore (queues init q)
   \<and> (\<exists>s. exec [Enqueue 0 (Resolves ''a''), Suspend 0, Resume 0, Start 0] init = Some s
            \<and> allSemaphore (queues s 0) \<and> in_flight 0 s = [0])
   \<and> (\<exists>s. exec [Enqueue 0 (Resolves ''a''), Clear 0, Enqueue 0 (Resolves ''b''),
                  Start 0, Start 1, Settle 0, Finish 0] init = Some s
            \<and> allSemaphore (queues s 0) \<and> in_flight 0 s = [1])"
  by (simp add: model_defs)

text \<open>
  Claim C3 (fails on the code for an operation that throws). When the operation throws,
  the call of \<open>runNext\<close> ends with the exception: no callback of the entry is called,
  the semaphores stay reset, the queue stays marked as running, no continuation is left,
  and the entries behind it stay pending; a later \<open>enqueue\<close> only appends. When the
  operation returns a promise that rejects, the sibling path, the error goes to the
  entry's \<open>reject\<close> and the next entry is dequeued.
\<close>

theorem throwing_operation_stops_the_queue:
  "(\<exists>s s'. exec [Enqueue 0 (Throws ''boom''), Enqueue 0 (Returns ''next''), Start 0] init = Some s
            \<and> invoked s = [0] \<and> settled s = [] \<and> activations s = [] \<and> pending 0 s = [1]
            \<and> \<not> currentSemaphore (queues s 0) \<and> \<not> allSemaphore (queues s 0)
            \<and> isRunning 0 s
            \<and> (\<forall>p. step (Start p) s = None \<and> step (Settle p) s = None \<and>
                     step (Finish p) s = None)
            \<and> exec [Enqueue 0 (Returns ''later'')] s = Some s'
            \<and> activations s' = [] \<and> pending 0 s' = [1, 2])
   \<and> (\<exists>s. exec [Enqueue 0 (Rejects ''boom''), Enqueue 0 (Returns ''next''), Start 0,
                  Settle 0, Finish 0] init = Some s
            \<and> settled s = [(0, Rejected ''boom'')] \<and> dequeued 0 s = [1] \<and> pending 0 s = [])"
  by (simp add: model_defs)

lemma invoked_grows_step: "step e s = Some s' \<Longrightarrow> set (invoked s) \<subseteq> set (invoked s')"
  by (cases e) (auto split: option.splits if_splits)

lemma invoked_grows: "exec es s = Some s' \<Longrightarrow> set (invoked s) \<subseteq> set (invoked s')"
  by (induction es arbitrary: s) (auto split: option.splits dest!: invoked_grows_step)

text \<open>
  Claim C2 (fails on the code for an operation that throws). The promise that \<open>enqueue\<close>
  returns for an operation that throws is never settled: the operation is called, the
  exception leaves \<open>run\<close> before \<open>.then(resolve, reject)\<close>, and nothing that happens
  afterwards calls \<open>reject\<close> (or \<open>resolve\<close>) of that entry.
\<close>

theorem throwing_operation_never_settles:
  assumes "exec (Enqueue q (Throws e) # Start 0 # fs) init = Some s"
  shows "0 \<in> set (invoked s) \<and> 0 \<notin> fst ` set (settled s)"
proof -
  define s1 where "s1 = the (exec [Enqueue q (Throws e), Start 0] init)"
  have s1: "exec [Enqueue q (Throws e), Start 0] init = Some s1"
    and inv: "invoked s1 = [0]"
    and g: "gone 0 s1"
    unfolding s1_def by (simp_all add: model_defs gone_def)
  from assms s1 have run: "exec fs s1 = Some s"
    using exec_append[of "[Enqueue q (Throws e), Start 0]" fs init] by simp
  from g run have "gone 0 s" by (rule gone_exec)
  then have "0 \<notin> fst ` set (settled s)" by (simp add: gone_def)
  moreover from invoked_grows[OF run] inv have "0 \<in> set (invoked s)" by auto
  ultimately show ?thesis by simp
qed

theorem throwing_operation_never_settles_witness:
  "\<exists>s. exec [Enqueue 0 (Throws ''boom''), Start 0, Enqueue 0 (Returns ''x''), Suspend 0, Resume 0,
              Start 1, Settle 1, Finish 1] init = Some s
       \<and> invoked s = [0, 1] \<and> settled s = [(1, Fulfilled ''x'')]
       \<and> 0 \<in> set (invoked s) \<and> 0 \<notin> fst ` set (settled s)"
proof -
  define s where "s = the (exec [Enqueue 0 (Throws ''boom''), Start 0, Enqueue 0 (Returns ''x''),
              Suspend 0, Resume 0, Start 1, Settle 1, Finish 1] init)"
  have s: "exec [Enqueue 0 (Throws ''boom''), Start 0, Enqueue 0 (Returns ''x''), Suspend 0,
              Resume 0, Start 1, Settle 1, Finish 1] init = Some s"
    and obs: "invoked s = [0, 1]" "settled s = [(1, Fulfilled ''x'')]"
    unfolding s_def by (simp_all add: model_defs)
  from throwing_operation_never_settles[OF s] s obs show ?thesis by blast
qed

section \<open>Entries kept by \<open>clear()\<close>\<close>

lemma queues_run [simp]: "queues (run a s) = queues s"
  by (simp add: run_def Let_def drop_activation_def move_activation_def split: Operation.splits)

text \<open>An operation that has been called settles, and with nothing pending the loop ends.\<close>

lemma running_completes:
  assumes a: "the_activation p s = Some a" and q: "this a = q" and at: "at a = AwaitOperation"
    and r: "outcome_of (operation (entry a)) = Some r"
    and ops: "operations (queues s q) = []"
  shows "\<exists>s'. exec [Settle p, Finish p] s = Some s' \<and>
           invoked s' = invoked s \<and> settled s' = settled s @ [(p, r)] \<and>
           currentSemaphore (queues s' q) \<and> allSemaphore (queues s' q)"
proof -
  have pa: "promise (entry a) = p" using a by (simp add: the_activation_SomeD)
  let ?s1 = "settle a r s"
  have s1: "step (Settle p) s = Some ?s1" using a at r by simp
  have a1: "the_activation p ?s1 = Some (a\<lparr>at := AwaitRun\<rparr>)"
    using a pa by (simp add: settle_def the_activation_move)
  have s2: "step (Finish p) ?s1 = Some (finish (a\<lparr>at := AwaitRun\<rparr>) ?s1)" using a1 by simp
  have ops1: "operations (queues ?s1 q) = []"
    using ops by (simp add: settle_def move_activation_def)
  have fin: "currentSemaphore (queues (finish (a\<lparr>at := AwaitRun\<rparr>) ?s1) q) \<and>
             allSemaphore (queues (finish (a\<lparr>at := AwaitRun\<rparr>) ?s1) q)"
    using q ops1
    by (simp add: finish_def runNext_def drop_activation_def signal_def set_gate_def suspend_def)
  have "settled (finish (a\<lparr>at := AwaitRun\<rparr>) ?s1) = settled s @ [(p, r)]"
    using pa by simp
  moreover have "invoked (finish (a\<lparr>at := AwaitRun\<rparr>) ?s1) = invoked s" by simp
  ultimately show ?thesis using s1 s2 fin by simp
qed

text \<open>A dequeued entry whose waits have resolved is called, settles, and the loop ends.\<close>

lemma dequeued_completes:
  assumes a: "the_activation p s = Some a" and q: "this a = q"
    and at: "at a = AwaitDependencies []"
    and r: "outcome_of (operation (entry a)) = Some r"
    and ops: "operations (queues s q) = []"
  shows "\<exists>s'. exec [Start p, Settle p, Finish p] s = Some s' \<and>
           invoked s' = invoked s @ [p] \<and> settled s' = settled s @ [(p, r)] \<and>
           currentSemaphore (queues s' q) \<and> allSemaphore (queues s' q)"
proof -
  have pa: "promise (entry a) = p" using a by (simp add: the_activation_SomeD)
  have st: "step (Start p) s = Some (run a s)" using a at by simp
  from r have run: "run a s = move_activation p AwaitOperation (s\<lparr>invoked := invoked s @ [p]\<rparr>)"
    by (cases "operation (entry a)") (simp_all add: run_def Let_def pa)
  have a1: "the_activation p (run a s) = Some (a\<lparr>at := AwaitOperation\<rparr>)"
    unfolding run using a by (simp add: the_activation_move)
  have "\<exists>s'. exec [Settle p, Finish p] (run a s) = Some s' \<and>
           invoked s' = invoked (run a s) \<and> settled s' = settled (run a s) @ [(p, r)] \<and>
           currentSemaphore (queues s' q) \<and> allSemaphore (queues s' q)"
    using a1 by (rule running_completes) (simp_all add: q r ops)
  then obtain s' where s': "exec [Settle p, Finish p] (run a s) = Some s'"
    "invoked s' = invoked (run a s)" "settled s' = settled (run a s) @ [(p, r)]"
    "currentSemaphore (queues s' q)" "allSemaphore (queues s' q)" by blast
  have e: "exec [Start p, Settle p, Finish p] s = Some s'"
    using st s'(1) by (simp del: step.simps)
  have "invoked s' = invoked s @ [p]" using s'(2) pa by simp
  moreover have "settled s' = settled s @ [(p, r)]" using s'(3) by simp
  ultimately show ?thesis using e s'(4,5) by blast
qed




section \<open>\<open>current()\<close> and \<open>all()\<close>\<close>

text \<open>
  Claim C8 (holds for \<open>current()\<close>, fails on the code for \<open>all()\<close>). With its
  semaphore signalled, \<open>current()\<close> returns at the check and leaves nothing to wait
  for: an entry dequeued while its \<open>WaitCurrent\<close> dependency is idle can be called even
  when the dependency gets an entry in the same synchronous block. \<open>all()\<close> never
  returns at once: it hands the semaphore to \<^verbatim>\<open>await\<close>, signalled or not, so a job has
  to run before the wait can resolve. An entry dequeued while its \<open>WaitAll\<close> dependency
  is idle cannot be called yet, and when the dependency gets an entry in the same
  synchronous block, the job finds the semaphore reset and the entry waits until the
  dependency has drained.
\<close>

theorem all_awaits_signalled_semaphore:
  "all q s \<noteq> Resolved
   \<and> currentSemaphore (queues init 1) \<and> await_on (current 1 init) = []
   \<and> allSemaphore (queues init 1) \<and> await_on (all 1 init) = [Thenable (1, All)]
   \<and> (\<exists>s. exec [AddDependency 0 1 WaitCurrent, Enqueue 0 (Returns ''a''),
                  Enqueue 1 (Resolves ''b'')] init = Some s
            \<and> map (\<lambda>a. (this a, promise (entry a), waits a)) (activations s) =
                  [(0, 0, []), (1, 1, [])]
            \<and> step (Start 0) s \<noteq> None)
   \<and> (\<exists>s s' s''. exec [AddDependency 0 1 WaitAll, Enqueue 0 (Returns ''a'')] init = Some s
            \<and> allSemaphore (queues s 1)
            \<and> map (\<lambda>a. (this a, promise (entry a), waits a)) (activations s) =
                  [(0, 0, [Thenable (1, All)])]
            \<and> step (Start 0) s = None
            \<and> exec [Enqueue 1 (Resolves ''b''), Then 0 (1, All)] s = Some s'
            \<and> map (\<lambda>a. (this a, promise (entry a), waits a)) (activations s') =
                  [(0, 0, [Waiter (1, All)]), (1, 1, [])]
            \<and> step (Start 0) s' = None
            \<and> exec [Start 1, Settle 1, Finish 1] s' = Some s''
            \<and> map (\<lambda>a. (this a, promise (entry a), waits a)) (activations s'') = [(0, 0, [])]
            \<and> invoked s'' = [1] \<and> step (Start 0) s'' \<noteq> None)"
  by (simp add: model_defs)

section \<open>Two queues that wait for each other\<close>

text \<open>
  Claim C9 (fails on the code). Queues 0 and 1 wait for each other's current semaphore.
  Queue 1 has called and settled \<open>b1\<close> and has \<open>b2\<close> pending. Queue 0 now gets
  \<open>a1\<close>, one job before the continuation of queue 1: \<open>a1\<close> finds the current semaphore
  of queue 1 reset and awaits it, which queues the job that will call \<open>then\<close>. The
  continuation of queue 1 runs first: it signals its current semaphore, with no callback
  registered yet, dequeues \<open>b2\<close>, resets the semaphore, and \<open>b2\<close> awaits the current
  semaphore of queue 0, reset since \<open>a1\<close> was dequeued. Both jobs then register their
  callback with a semaphore that is reset: \<open>a1\<close> waits for \<open>b2\<close> and \<open>b2\<close> for
  \<open>a1\<close>. No continuation is enabled, and later enqueues only append. The same happens
  with one \<open>Interleave\<close> registration. When the enqueues come in one synchronous block,
  as in the test of the repository, the operations take turns.
\<close>

theorem mutual_wait_current_deadlock:
  "(\<exists>s s'. exec [AddDependency 0 1 WaitCurrent, AddDependency 1 0 WaitCurrent,
                   Enqueue 1 (Returns ''b1''), Enqueue 1 (Returns ''b2''), Start 0, Settle 0,
                   Enqueue 0 (Returns ''a1''), Finish 0,
                   Then 2 (1, Current), Then 1 (0, Current)] init = Some s
            \<and> map (\<lambda>a. (this a, promise (entry a), waits a)) (activations s) =
                  [(0, 2, [Waiter (1, Current)]), (1, 1, [Waiter (0, Current)])]
            \<and> invoked s = [0] \<and> settled s = [(0, Fulfilled ''b1'')]
            \<and> \<not> currentSemaphore (queues s 0) \<and> \<not> currentSemaphore (queues s 1)
            \<and> (\<forall>p w. step (Then p w) s = None \<and> step (Start p) s = None \<and>
                       step (Settle p) s = None \<and> step (Finish p) s = None)
            \<and> exec [Enqueue 0 (Returns ''a2''), Enqueue 1 (Returns ''b3'')] s = Some s'
            \<and> activations s' = activations s \<and> pending 0 s' = [3] \<and> pending 1 s' = [4]
            \<and> (\<forall>p w. step (Then p w) s' = None \<and> step (Start p) s' = None \<and>
                       step (Settle p) s' = None \<and> step (Finish p) s' = None))
   \<and> (\<exists>s. exec [AddDependency 0 1 Interleave,
                  Enqueue 1 (Returns ''b1''), Enqueue 1 (Returns ''b2''), Start 0, Settle 0,
                  Enqueue 0 (Returns ''a1''), Finish 0,
                  Then 2 (1, Current), Then 1 (0, Current)] init = Some s
            \<and> map (\<lambda>a. (this a, promise (entry a), waits a)) (activations s) =
                  [(0, 2, [Waiter (1, Current)]), (1, 1, [Waiter (0, Current)])]
            \<and> invoked s = [0]
            \<and> (\<forall>p w. step (Then p w) s = None \<and> step (Start p) s = None \<and>
                       step (Settle p) s = None \<and> step (Finish p) s = None))
   \<and> (\<exists>s. exec [AddDependency 1 2 WaitCurrent, AddDependency 2 1 WaitCurrent,
                  Enqueue 2 (Resolves ''2.1''), Enqueue 1 (Resolves ''1.1''),
                  Enqueue 2 (Resolves ''2.2''), Then 1 (2, Current),
                  Start 0, Settle 0, Finish 0, Then 2 (1, Current),
                  Start 1, Settle 1, Finish 1, Start 2, Settle 2, Finish 2] init = Some s
            \<and> invoked s = [0, 1, 2] \<and> activations s = [])"
  by (simp add: model_defs)

section \<open>The dependency waits\<close>

lemma find_filter_other:
  "p \<noteq> x \<Longrightarrow>
   find (\<lambda>a. promise (entry a) = p) (filter (\<lambda>a. promise (entry a) \<noteq> x) xs) =
   find (\<lambda>a. promise (entry a) = p) xs"
  by (induction xs) auto

lemma find_map_entry:
  assumes "\<And>a. entry (f a) = entry a"
  shows "find (\<lambda>a. promise (entry a) = p) (map f xs) =
         map_option f (find (\<lambda>a. promise (entry a) = p) xs)"
  by (induction xs) (simp_all add: assms)

lemma the_activation_drop:
  "p \<noteq> x \<Longrightarrow> the_activation p (drop_activation x s) = the_activation p s"
  by (simp add: the_activation_def drop_activation_def find_filter_other)

lemma the_activation_move_other:
  assumes "p \<noteq> x"
  shows "the_activation p (move_activation x pt s) = the_activation p s"
proof -
  let ?f = "\<lambda>a. if promise (entry a) = x then a\<lparr>at := pt\<rparr> else a"
  have "the_activation p (move_activation x pt s) = map_option ?f (the_activation p s)"
    unfolding the_activation_def move_activation_def
    by (simp add: find_map_entry[of ?f])
  also have "\<dots> = the_activation p s"
  proof (cases "the_activation p s")
    case None
    then show ?thesis by simp
  next
    case (Some a)
    then have "promise (entry a) = p" by (simp add: the_activation_SomeD)
    with assms Some show ?thesis by simp
  qed
  finally show ?thesis .
qed

lemma the_activation_signal:
  "the_activation p (signal q g s) = map_option (release (q, g)) (the_activation p s)"
  unfolding the_activation_def by (simp add: find_map_entry[of "release (q, g)"])

lemma the_activation_then:
  "the_activation p (then_semaphore x w s) =
     map_option (\<lambda>a. if promise (entry a) = x then register w (isSignalled s w) a else a)
       (the_activation p s)"
  unfolding the_activation_def then_semaphore_def
  by (simp add: find_map_entry[of
        "\<lambda>a. if promise (entry a) = x then register w (isSignalled s w) a else a"])

lemma the_activation_frame [simp]:
  "the_activation p (s\<lparr>promises := n\<rparr>) = the_activation p s"
  "the_activation p (set_gate q g b s) = the_activation p s"
  "the_activation p (reset q g s) = the_activation p s"
  "the_activation p (suspend q s) = the_activation p s"
  "the_activation p (set_dependency q other mode s) = the_activation p s"
  "the_activation p (addDependency q other mode s) = the_activation p s"
  by (simp_all add: the_activation_def)

lemma find_snoc:
  "find P (xs @ [y]) = (case find P xs of Some a \<Rightarrow> Some a | None \<Rightarrow> if P y then Some y else None)"
  by (induction xs) auto

lemma queues_drop_move [simp]:
  "queues (drop_activation p s) = queues s"
  "queues (move_activation p pt s) = queues s"
  "queues (then_semaphore p w s) = queues s"
  by (simp_all add: drop_activation_def move_activation_def then_semaphore_def)

lemma the_activation_append:
  "the_activation p (s\<lparr>activations := activations s @ [new]\<rparr>) =
     (case the_activation p s of
        Some a \<Rightarrow> Some a
      | None \<Rightarrow> if promise (entry new) = p then Some new else None)"
  by (simp add: the_activation_def find_snoc)

lemma holds_frame [simp]:
  "holds p x (s\<lparr>promises := n\<rparr>) = holds p x s"
  "holds p x (s\<lparr>invoked := i\<rparr>) = holds p x s"
  "holds p x (s\<lparr>settled := r\<rparr>) = holds p x s"
  "holds p x (s\<lparr>queues := qs\<rparr>) = holds p x s"
  "holds p x (set_gate q g b s) = holds p x s"
  "holds p x (reset q g s) = holds p x s"
  "holds p x (suspend q s) = holds p x s"
  "holds p x (clear q s) = holds p x s"
  "holds p x (addDependency q other mode s) = holds p x s"
  by (simp_all add: holds_def)

lemma holds_drop: "p \<noteq> x' \<Longrightarrow> holds p x (drop_activation x' s) = holds p x s"
  by (simp add: holds_def the_activation_drop)

lemma holds_move: "p \<noteq> x' \<Longrightarrow> holds p x (move_activation x' pt s) = holds p x s"
  by (simp add: holds_def the_activation_move_other)

lemma holds_signal: "holds p x (signal q g s) = (holds p x s \<and> x \<noteq> Waiter (q, g))"
  by (auto simp: holds_def the_activation_signal split: option.splits)

lemma holds_append: "holds p x s \<Longrightarrow> holds p x (s\<lparr>activations := activations s @ [new]\<rparr>)"
  by (simp add: holds_def the_activation_append split: option.splits)

lemma holds_runNext:
  assumes h: "holds p x s" and ne: "x = Waiter (q, All) \<longrightarrow> operations (queues s q) \<noteq> []"
  shows "holds p x (runNext q s)"
proof (cases "operations (queues s q)")
  case Nil
  with h ne show ?thesis by (simp add: runNext_def holds_signal)
next
  case (Cons e rest)
  let ?s2 = "reset q All (reset q Current
               (s\<lparr>queues := (queues s)(q := (queues s q)\<lparr>operations := rest\<rparr>)\<rparr>))"
  have "holds p x ?s2" using h by simp
  then have "holds p x (?s2\<lparr>activations := activations ?s2 @
      [\<lparr>this = q, entry = e, at = AwaitDependencies (dependency_waits q ?s2)\<rparr>]\<rparr>)"
    by (rule holds_append)
  then show ?thesis using Cons by (simp add: runNext_def Let_def)
qed

lemma holds_resume:
  assumes h: "holds p x s"
    and ne: "x = Waiter (q, All) \<longrightarrow> \<not> suspended (queues s q) \<or> operations (queues s q) \<noteq> []"
  shows "holds p x (resume q s)"
proof (cases "suspended (queues s q)")
  case True
  let ?s1 = "s\<lparr>queues := (queues s)(q := (queues s q)\<lparr>suspended := False\<rparr>)\<rparr>"
  have "holds p x (runNext q ?s1)"
    using h ne True by (intro holds_runNext) simp_all
  then show ?thesis using True by (simp add: resume_def)
next
  case False
  with h show ?thesis by (simp add: resume_def)
qed

lemma holds_enqueue: "holds p x s \<Longrightarrow> holds p x (enqueue q op s)"
  unfolding enqueue_def push_def by (rule holds_resume) simp_all

lemma holds_finish:
  assumes h: "holds p x s" and ne: "p \<noteq> promise (entry b)"
    and c: "x \<noteq> Waiter (this b, Current)"
    and a: "x = Waiter (this b, All) \<longrightarrow> operations (queues s (this b)) \<noteq> []"
  shows "holds p x (finish b s)"
  unfolding finish_def
  using h ne c a by (intro holds_runNext) (simp_all add: holds_signal holds_drop)

lemma waits_register:
  "waits (register v b a) =
     (if b then removeAll (Thenable v) (waits a)
      else map (\<lambda>x. if x = Thenable v then Waiter v else x) (waits a))"
  by (simp add: waits_def register_def split: await_point.splits)

lemma awaits_then:
  assumes h: "awaits p w s" and n: "\<not> (x = p \<and> v = w \<and> isSignalled s w)"
  shows "awaits p w (then_semaphore x v s)"
proof -
  from h obtain a where a: "the_activation p s = Some a"
    and m: "Thenable w \<in> set (waits a) \<or> Waiter w \<in> set (waits a)"
    by (auto simp: awaits_def holds_def split: option.splits)
  from a have pa: "promise (entry a) = p" by (simp add: the_activation_SomeD)
  show ?thesis
  proof (cases "x = p")
    case False
    with a pa m show ?thesis by (auto simp: awaits_def holds_def the_activation_then)
  next
    case True
    have t: "the_activation p (then_semaphore x v s) = Some (register v (isSignalled s v) a)"
      using a pa True by (simp add: the_activation_then)
    show ?thesis
    proof (cases "v = w")
      case False
      with m show ?thesis
        by (auto simp: awaits_def holds_def t waits_register)
    next
      case same: True
      with n True have ns: "\<not> isSignalled s w" by simp
      from t same have t': "the_activation p (then_semaphore x w s) =
          Some (register w (isSignalled s w) a)" by simp
      have "Waiter w \<in> set (waits (register w (isSignalled s w) a))"
        using m ns by (auto simp: waits_register)
      then have "holds p (Waiter w) (then_semaphore x w s)" by (simp add: holds_def t')
      then show ?thesis unfolding same awaits_def ..
    qed
  qed
qed

lemma holds_waits_nonempty:
  "holds p x s \<Longrightarrow> the_activation p s = Some a \<Longrightarrow> waits a \<noteq> []"
  by (auto simp: holds_def)

text \<open>A step that signals a semaphore leaves no callback registered with it.\<close>

lemma waiter_not_started: "Waiter w \<notin> set (dependency_waits q s)"
  by (auto simp: dependency_waits_def dependency_wait_def await_on_def split: awaitable.splits)

lemma holds_append_rev:
  "holds p x (s\<lparr>activations := activations s @ [new]\<rparr>) \<Longrightarrow>
   holds p x s \<or> x \<in> set (waits new)"
  by (auto simp: holds_def the_activation_append split: option.splits if_splits)

lemma holds_runNext_waiter:
  assumes h: "holds p (Waiter w) (runNext q s)"
  shows "holds p (Waiter w) s \<and> (operations (queues s q) = [] \<longrightarrow> w \<noteq> (q, All))"
proof (cases "operations (queues s q)")
  case Nil
  with h show ?thesis by (simp add: runNext_def holds_signal)
next
  case (Cons e rest)
  let ?s2 = "reset q All (reset q Current
               (s\<lparr>queues := (queues s)(q := (queues s q)\<lparr>operations := rest\<rparr>)\<rparr>))"
  let ?new = "\<lparr>this = q, entry = e, at = AwaitDependencies (dependency_waits q ?s2)\<rparr>"
  from h Cons have "holds p (Waiter w) (?s2\<lparr>activations := activations ?s2 @ [?new]\<rparr>)"
    by (simp add: runNext_def Let_def)
  then have "holds p (Waiter w) ?s2 \<or> Waiter w \<in> set (waits ?new)"
    by (rule holds_append_rev)
  moreover have "waits ?new = dependency_waits q ?s2" by (simp add: waits_def)
  ultimately have "holds p (Waiter w) ?s2" by (simp only: waiter_not_started simp_thms)
  with Cons show ?thesis by simp
qed

lemma signalled_released:
  assumes st: "step e s = Some t" and w: "w \<in> set (signals e s)"
  shows "\<not> holds p (Waiter w) t"
proof (cases e)
  case (Resume q)
  with w have sus: "suspended (queues s q)" and ops: "operations (queues s q) = []"
    and eq: "w = (q, All)" by (auto split: if_splits)
  from st Resume sus
  have t: "t = runNext q (s\<lparr>queues := (queues s)(q := (queues s q)\<lparr>suspended := False\<rparr>)\<rparr>)"
    by (simp add: resume_def)
  show ?thesis
  proof
    assume "holds p (Waiter w) t"
    from holds_runNext_waiter[OF this[unfolded t]] ops eq show False by simp
  qed
next
  case (Finish y)
  with st obtain b where b: "the_activation y s = Some b" and t: "t = finish b s"
    by (auto split: option.splits if_splits)
  from w Finish b have c: "w = (this b, Current) \<or>
      (w = (this b, All) \<and> operations (queues s (this b)) = [])"
    by (auto split: if_splits)
  show ?thesis
  proof
    assume "holds p (Waiter w) t"
    from holds_runNext_waiter[OF this[unfolded t finish_def]] c show False
      by (auto simp: holds_signal)
  qed
qed (use w in simp_all)

text \<open>A wait stays with its activation through every step that does not resolve it.\<close>

lemma holds_step:
  assumes h: "holds p x s" and st: "step e s = Some t"
    and nt: "\<forall>v. e \<noteq> Then p v"
    and ns: "\<forall>w. x = Waiter w \<longrightarrow> w \<notin> set (signals e s)"
  shows "holds p x t"
proof (cases e)
  case (AddDependency q other mode)
  with st h show ?thesis by auto
next
  case (Enqueue q op)
  with st h show ?thesis by (auto simp: holds_enqueue)
next
  case (Clear q)
  with st h show ?thesis by auto
next
  case (Suspend q)
  with st h show ?thesis by auto
next
  case (Resume q)
  with ns have "x = Waiter (q, All) \<longrightarrow> \<not> suspended (queues s q) \<or> operations (queues s q) \<noteq> []"
    by auto
  with h have "holds p x (resume q s)" by (rule holds_resume)
  with st Resume show ?thesis by simp
next
  case (Then y v)
  with nt have ne: "y \<noteq> p" by auto
  from st Then have t: "t = then_semaphore y v s" by (auto split: option.splits if_splits)
  from h obtain a where a: "the_activation p s = Some a" and m: "x \<in> set (waits a)"
    by (auto simp: holds_def split: option.splits)
  from a have "promise (entry a) = p" by (simp add: the_activation_SomeD)
  with ne a m show ?thesis unfolding t by (simp add: holds_def the_activation_then)
next
  case (Start y)
  with st obtain b where b: "the_activation y s = Some b" and at: "at b = AwaitDependencies []"
    and t: "t = run b s" by (auto split: option.splits if_splits)
  from at have "waits b = []" by (simp add: waits_def)
  with h b have ne: "p \<noteq> y" using holds_waits_nonempty by blast
  from b have pb: "promise (entry b) = y" by (simp add: the_activation_SomeD)
  show ?thesis unfolding t using h ne pb
    by (simp add: run_def Let_def holds_drop holds_move split: Operation.splits)
next
  case (Settle y)
  with st obtain b r where b: "the_activation y s = Some b" and at: "at b = AwaitOperation"
    and t: "t = settle b r s" by (auto split: option.splits if_splits)
  from at have "waits b = []" by (simp add: waits_def)
  with h b have ne: "p \<noteq> y" using holds_waits_nonempty by blast
  from b have pb: "promise (entry b) = y" by (simp add: the_activation_SomeD)
  show ?thesis unfolding t using h ne pb by (simp add: settle_def holds_move)
next
  case (Finish y)
  with st obtain b where b: "the_activation y s = Some b" and at: "at b = AwaitRun"
    and t: "t = finish b s" by (auto split: option.splits if_splits)
  from at have "waits b = []" by (simp add: waits_def)
  with h b have ne: "p \<noteq> y" using holds_waits_nonempty by blast
  from b have pb: "promise (entry b) = y" by (simp add: the_activation_SomeD)
  from ns Finish b have c: "x \<noteq> Waiter (this b, Current)"
    and a: "x = Waiter (this b, All) \<longrightarrow> operations (queues s (this b)) \<noteq> []"
    by auto
  show ?thesis unfolding t using h _ c a by (rule holds_finish) (simp add: ne pb)
qed

lemma awaits_step:
  assumes h: "awaits p w s" and st: "step e s = Some t"
    and n1: "\<not> (e = Then p w \<and> isSignalled s w)"
    and n2: "\<not> (holds p (Waiter w) s \<and> w \<in> set (signals e s))"
  shows "awaits p w t"
proof (cases "\<exists>v. e = Then p v")
  case True
  then obtain v where e: "e = Then p v" by blast
  with st have t: "t = then_semaphore p v s" by (auto split: option.splits if_splits)
  from n1 e have "\<not> (p = p \<and> v = w \<and> isSignalled s w)" by auto
  with h show ?thesis unfolding t by (rule awaits_then)
next
  case False
  then have nt: "\<forall>v. e \<noteq> Then p v" by blast
  from h show ?thesis unfolding awaits_def
  proof
    assume "holds p (Thenable w) s"
    then have "holds p (Thenable w) t" using st nt by (rule holds_step) simp
    then show "holds p (Thenable w) t \<or> holds p (Waiter w) t" ..
  next
    assume hw: "holds p (Waiter w) s"
    with n2 have "w \<notin> set (signals e s)" by simp
    with hw have "holds p (Waiter w) t" using st nt by (intro holds_step[of p _ s e t]) auto
    then show "holds p (Thenable w) t \<or> holds p (Waiter w) t" ..
  qed
qed

text \<open>
  An operation whose activation awaits a semaphore is called only after that wait has
  resolved.
\<close>

lemma awaits_resolves:
  "awaits p w s \<Longrightarrow> exec fs s = Some s' \<Longrightarrow> step (Start p) s' = Some s'' \<Longrightarrow>
   resolves p w fs s"
proof (induction fs arbitrary: s)
  case Nil
  then have st: "step (Start p) s = Some s''" by simp
  then obtain a where a: "the_activation p s = Some a" and at: "at a = AwaitDependencies []"
    by (auto split: option.splits if_splits)
  from at have "waits a = []" by (simp add: waits_def)
  with a Nil.prems(1) show ?case by (auto simp: awaits_def holds_def)
next
  case (Cons e fs)
  from Cons.prems(2) obtain t where t: "step e s = Some t" and rest: "exec fs t = Some s'"
    by (auto split: option.splits)
  show ?case
  proof (cases "(e = Then p w \<and> isSignalled s w) \<or>
                (holds p (Waiter w) s \<and> w \<in> set (signals e s))")
    case True
    with t show ?thesis by auto
  next
    case False
    then have "awaits p w t" using Cons.prems(1) t by (intro awaits_step[of p w s e t]) auto
    then have "resolves p w fs t" using rest Cons.prems(3) by (rule Cons.IH)
    with t show ?thesis by simp
  qed
qed

lemma the_activation_None: "p \<notin> set (held s) \<Longrightarrow> the_activation p s = None"
  by (auto simp: the_activation_def held_def find_None_iff)

lemma gates_runNext:
  assumes "operations (queues s q) = e # rest"
  shows "currentSemaphore (queues (runNext q s) q') =
           currentSemaphore (queues (reset q All (reset q Current s)) q')"
    and "allSemaphore (queues (runNext q s) q') =
           allSemaphore (queues (reset q All (reset q Current s)) q')"
  using assms by (auto simp: runNext_def Let_def reset_def set_gate_def)

text \<open>The activation that \<open>runNext\<close> creates, with its waits.\<close>

lemma runNext_new:
  assumes n: "p \<notin> set (held s)" and a: "the_activation p (runNext q s) = Some a"
  shows "this a = q \<and>
         waits a = concat (map (dependency_wait (runNext q s)) (dependencies (queues s q)))"
proof (cases "operations (queues s q)")
  case Nil
  then have "held (runNext q s) = held s" by (simp add: pending_def)
  with a n show ?thesis using the_activation_held[OF a] by simp
next
  case (Cons e rest)
  define ws where "ws = concat (map (dependency_wait (reset q All (reset q Current s)))
                                    (dependencies (queues s q)))"
  define new where "new = \<lparr>this = q, entry = e, at = AwaitDependencies ws\<rparr>"
  have acts: "activations (runNext q s) = activations s @ [new]"
    unfolding new_def ws_def using Cons by (rule runNext_dequeues)
  have none: "find (\<lambda>a. promise (entry a) = p) (activations s) = None"
    using the_activation_None[OF n] by (simp add: the_activation_def)
  from a have "find (\<lambda>a. promise (entry a) = p) (activations s @ [new]) = Some a"
    unfolding the_activation_def acts .
  then have "(if promise (entry new) = p then Some new else None) = Some a"
    by (simp only: find_snoc none option.case)
  then have "Some new = Some a" by (cases "promise (entry new) = p") simp_all
  then have eq: "new = a" by (rule option.inject[THEN iffD1])
  have "this new = q" "waits new = ws" by (simp_all add: new_def waits_def)
  then have 1: "this a = q" and 2: "waits a = ws" unfolding eq by simp_all
  have "dependency_wait (reset q All (reset q Current s)) = dependency_wait (runNext q s)"
    by (rule ext, rule dependency_wait_gates) (simp_all only: gates_runNext[OF Cons])
  with 1 2 show ?thesis by (simp add: ws_def)
qed

lemma held_step_same:
  assumes st: "step e s0 = Some s"
    and e: "\<forall>q op. e \<noteq> Enqueue q op" "\<forall>q. e \<noteq> Resume q" "\<forall>y. e \<noteq> Finish y"
  shows "set (held s) \<subseteq> set (held s0)"
  using st e by (cases e) (auto split: option.splits if_splits dest: held_runD)

lemma enqueue_suspended:
  "suspended (queues s q) \<Longrightarrow>
   enqueue q op s =
     runNext q (s\<lparr>promises := Suc (promises s),
                 queues := (queues s)(q := (queues s q)
                    \<lparr>operations := operations (queues s q) @ [\<lparr>operation = op, promise = promises s\<rparr>],
                     suspended := False\<rparr>)\<rparr>)"
  by (simp add: enqueue_def push_def resume_def)

text \<open>The step that dequeues an entry starts its dependency waits.\<close>

lemma dequeue_step:
  assumes st: "step e s0 = Some s" and n: "p \<notin> set (held s0)"
    and a: "the_activation p s = Some a"
  shows "waits a = concat (map (dependency_wait s) (dependencies (queues s0 (this a))))"
proof -
  have in_s: "p \<in> set (held s)" using a by (rule the_activation_held)
  have new: "this a = q \<and>
             waits a = concat (map (dependency_wait s) (dependencies (queues s0 (this a))))"
    if s: "s = runNext q s1" and h: "set (held s1) \<subseteq> set (held s0)"
      and d: "dependencies (queues s1 q) = dependencies (queues s0 q)" for q s1
  proof -
    from h n have "p \<notin> set (held s1)" by blast
    moreover from a have "the_activation p (runNext q s1) = Some a" unfolding s .
    ultimately have "this a = q \<and>
         waits a = concat (map (dependency_wait (runNext q s1)) (dependencies (queues s1 q)))"
      by (rule runNext_new)
    then show ?thesis unfolding s d by simp
  qed
  show ?thesis
  proof (cases e)
    case (Enqueue q op)
    show ?thesis
    proof (cases "suspended (queues s0 q)")
      case True
      from st Enqueue have "s = enqueue q op s0" by simp
      then have "s = runNext q (s0\<lparr>promises := Suc (promises s0),
                 queues := (queues s0)(q := (queues s0 q)
                    \<lparr>operations := operations (queues s0 q) @ [\<lparr>operation = op, promise = promises s0\<rparr>],
                     suspended := False\<rparr>)\<rparr>)"
        by (simp only: enqueue_suspended[OF True])
      then show ?thesis by (rule new[THEN conjunct2]) simp_all
    next
      case False
      with st Enqueue have "held s = held s0" by auto
      with in_s n show ?thesis by simp
    qed
  next
    case (Resume q)
    show ?thesis
    proof (cases "suspended (queues s0 q)")
      case True
      with st Resume have "s = runNext q (s0\<lparr>queues := (queues s0)(q := (queues s0 q)\<lparr>suspended := False\<rparr>)\<rparr>)"
        by (simp add: resume_def)
      then show ?thesis by (rule new[THEN conjunct2]) simp_all
    next
      case False
      with st Resume have "held s = held s0" by auto
      with in_s n show ?thesis by simp
    qed
  next
    case (Finish y)
    with st obtain b where "s = finish b s0" by (auto split: option.splits if_splits)
    then have "s = runNext (this b) (signal (this b) Current (drop_activation (promise (entry b)) s0))"
      by (simp only: finish_def)
    then show ?thesis by (rule new[THEN conjunct2]) auto
  next
    case (AddDependency q other mode)
    with held_step_same[OF st] in_s n show ?thesis by auto
  next
    case (Clear q)
    with held_step_same[OF st] in_s n show ?thesis by auto
  next
    case (Suspend q)
    with held_step_same[OF st] in_s n show ?thesis by auto
  next
    case (Then y v)
    with held_step_same[OF st] in_s n show ?thesis by auto
  next
    case (Start y)
    with held_step_same[OF st] in_s n show ?thesis by auto
  next
    case (Settle y)
    with held_step_same[OF st] in_s n show ?thesis by auto
  qed
qed

lemma dependency_wait_cases:
  "dependency_wait s =
     (\<lambda>(d, m). if m = WaitAll then [Thenable (d, All)]
               else if currentSemaphore (queues s d) then [] else [Thenable (d, Current)])"
  by (rule ext) (auto simp: dependency_wait_def all_def current_def await_on_def)

lemma dependency_awaited:
  assumes w: "waits a = concat (map (dependency_wait s) ds)" and a: "the_activation p s = Some a"
    and d: "(d, m) \<in> set ds"
  shows "(m \<noteq> WaitAll \<and> currentSemaphore (queues s d)) \<or> awaits p (d, gate_of m) s"
proof (cases "m \<noteq> WaitAll \<and> currentSemaphore (queues s d)")
  case True
  then show ?thesis ..
next
  case False
  then have "Thenable (d, gate_of m) \<in> set (dependency_wait s (d, m))"
    by (cases m) (auto simp: dependency_wait_cases)
  with d have "Thenable (d, gate_of m) \<in> set (waits a)" unfolding w by auto
  with a have "holds p (Thenable (d, gate_of m)) s" by (simp add: holds_def)
  then show ?thesis by (simp add: awaits_def)
qed

text \<open>
  Claim C7. Let a step dequeue the entry of promise \<open>p\<close>: \<open>runNext\<close> creates its
  activation. The activation has one wait for every entry of the dependency map of its
  queue, in the order of the map: on the all semaphore of the dependency for \<open>WaitAll\<close>,
  on its current semaphore for \<open>WaitCurrent\<close> and for \<open>Interleave\<close>, the latter left
  out when \<open>current()\<close> finds that semaphore signalled. Whenever the operation is called
  after some run, every one of these waits has resolved during that run: \<open>then\<close> was
  called on the semaphore while it was signalled, or the semaphore was signalled while it
  held the callback. And \<open>addDependency\<close> with \<open>Interleave\<close> enters each of the two
  queues in the other's dependency map, with that mode.
\<close>

theorem dependencies_awaited_before_run:
  assumes deq: "step e s0 = Some s" and new: "p \<notin> set (held s0)"
    and a: "the_activation p s = Some a"
    and run: "exec fs s = Some s'" and start: "step (Start p) s' = Some s''"
  shows "waits a =
           concat (map (\<lambda>(d, m). if m = WaitAll then [Thenable (d, All)]
                                  else if currentSemaphore (queues s d) then []
                                  else [Thenable (d, Current)])
                       (dependencies (queues s0 (this a))))
       \<and> (\<forall>(d, m) \<in> set (dependencies (queues s0 (this a))).
             (m \<noteq> WaitAll \<and> currentSemaphore (queues s d)) \<or>
             resolves p (d, gate_of m) fs s)
       \<and> invoked s'' = invoked s' @ [p]
       \<and> (\<forall>q other.
             map_of (dependencies (queues (addDependency q other Interleave s0) q)) other =
               Some Interleave \<and>
             map_of (dependencies (queues (addDependency q other Interleave s0) other)) q =
               Some Interleave)"
proof -
  have w: "waits a = concat (map (dependency_wait s) (dependencies (queues s0 (this a))))"
    using deq new a by (rule dequeue_step)
  have 1: "waits a =
           concat (map (\<lambda>(d, m). if m = WaitAll then [Thenable (d, All)]
                                  else if currentSemaphore (queues s d) then []
                                  else [Thenable (d, Current)])
                       (dependencies (queues s0 (this a))))"
    using w unfolding dependency_wait_cases .
  have 2: "\<forall>(d, m) \<in> set (dependencies (queues s0 (this a))).
             (m \<noteq> WaitAll \<and> currentSemaphore (queues s d)) \<or>
             resolves p (d, gate_of m) fs s"
  proof (intro ballI, clarify)
    fix d m assume d: "(d, m) \<in> set (dependencies (queues s0 (this a)))"
      and n: "\<not> resolves p (d, gate_of m) fs s"
    from dependency_awaited[OF w a d]
    have "(m \<noteq> WaitAll \<and> currentSemaphore (queues s d)) \<or> awaits p (d, gate_of m) s" .
    moreover have "\<not> awaits p (d, gate_of m) s"
      using n awaits_resolves[OF _ run start] by blast
    ultimately show "m \<noteq> WaitAll \<and> currentSemaphore (queues s d)" by blast
  qed
  have 3: "invoked s'' = invoked s' @ [p]" using step_Start[OF start] by blast
  have 4: "\<forall>q other.
             map_of (dependencies (queues (addDependency q other Interleave s0) q)) other =
               Some Interleave \<and>
             map_of (dependencies (queues (addDependency q other Interleave s0) other)) q =
               Some Interleave"
    by (simp add: addDependency_Interleave)
  show ?thesis by (intro conjI) (rule 1, rule 2, rule 3, rule 4)
qed

theorem dependencies_awaited_before_run_witness:
  "\<exists>s0 s a s' s''.
     exec [AddDependency 0 1 WaitAll, AddDependency 0 2 WaitCurrent, AddDependency 3 0 Interleave,
           Enqueue 1 (Resolves ''x''), Enqueue 1 (Resolves ''x2''), Enqueue 2 (Resolves ''y'')]
       init = Some s0
     \<and> dependencies (queues s0 0) = [(1, WaitAll), (2, WaitCurrent), (3, Interleave)]
     \<and> dependencies (queues s0 3) = [(0, Interleave)]
     \<and> step (Enqueue 0 (Returns ''z'')) s0 = Some s
     \<and> 3 \<notin> set (held s0) \<and> the_activation 3 s = Some a \<and> this a = 0
     \<and> \<not> allSemaphore (queues s 1) \<and> \<not> currentSemaphore (queues s 2)
     \<and> currentSemaphore (queues s 3)
     \<and> waits a = [Thenable (1, All), Thenable (2, Current)]
     \<and> step (Start 3) s = None
     \<and> exec [Then 3 (1, All), Then 3 (2, Current), Start 0, Settle 0, Finish 0,
              Start 2, Settle 2, Finish 2, Start 1, Settle 1, Finish 1] s = Some s'
     \<and> resolves 3 (1, All)
          [Then 3 (1, All), Then 3 (2, Current), Start 0, Settle 0, Finish 0,
           Start 2, Settle 2, Finish 2, Start 1, Settle 1, Finish 1] s
     \<and> resolves 3 (2, Current)
          [Then 3 (1, All), Then 3 (2, Current), Start 0, Settle 0, Finish 0,
           Start 2, Settle 2, Finish 2, Start 1, Settle 1, Finish 1] s
     \<and> step (Start 3) s' = Some s''
     \<and> invoked s'' = [0, 2, 1, 3]
     \<and> (\<exists>t. step (Enqueue 3 (Returns ''v'')) s = Some t \<and>
              dequeued 3 t = [4] \<and> holds 4 (Thenable (0, Current)) t)"
proof -
  define s0 where "s0 = the (exec
     [AddDependency 0 1 WaitAll, AddDependency 0 2 WaitCurrent, AddDependency 3 0 Interleave,
      Enqueue 1 (Resolves ''x''), Enqueue 1 (Resolves ''x2''), Enqueue 2 (Resolves ''y'')] init)"
  define s where "s = the (step (Enqueue 0 (Returns ''z'')) s0)"
  define a where "a = the (the_activation 3 s)"
  define s' where "s' = the (exec [Then 3 (1, All), Then 3 (2, Current), Start 0, Settle 0,
      Finish 0, Start 2, Settle 2, Finish 2, Start 1, Settle 1, Finish 1] s)"
  define s'' where "s'' = the (step (Start 3) s')"
  have s0: "exec [AddDependency 0 1 WaitAll, AddDependency 0 2 WaitCurrent,
        AddDependency 3 0 Interleave, Enqueue 1 (Resolves ''x''), Enqueue 1 (Resolves ''x2''),
        Enqueue 2 (Resolves ''y'')] init = Some s0"
    and deps: "dependencies (queues s0 0) = [(1, WaitAll), (2, WaitCurrent), (3, Interleave)]"
      "dependencies (queues s0 3) = [(0, Interleave)]"
    and new: "3 \<notin> set (held s0)"
    unfolding s0_def by (simp_all add: model_defs)
  have s: "step (Enqueue 0 (Returns ''z'')) s0 = Some s"
    unfolding s_def by simp
  have a: "the_activation 3 s = Some a" and ta: "this a = 0"
    and g: "\<not> allSemaphore (queues s 1)" "\<not> currentSemaphore (queues s 2)"
      "currentSemaphore (queues s 3)"
    and no: "step (Start 3) s = None"
    unfolding a_def s_def s0_def by (simp_all add: model_defs)
  have s': "exec [Then 3 (1, All), Then 3 (2, Current), Start 0, Settle 0, Finish 0,
              Start 2, Settle 2, Finish 2, Start 1, Settle 1, Finish 1] s = Some s'"
    and inv: "invoked s' = [0, 2, 1]"
    unfolding s'_def s_def s0_def by (simp_all add: model_defs)
  have s'': "step (Start 3) s' = Some s''"
    unfolding s''_def s'_def s_def s0_def by (simp add: model_defs)
  note T = dependencies_awaited_before_run[OF s new a s' s'']
  from T g have w: "waits a = [Thenable (1, All), Thenable (2, Current)]"
    by (simp add: ta deps)
  from T g have r1: "resolves 3 (1, All)
          [Then 3 (1, All), Then 3 (2, Current), Start 0, Settle 0, Finish 0,
           Start 2, Settle 2, Finish 2, Start 1, Settle 1, Finish 1] s"
    and r2: "resolves 3 (2, Current)
          [Then 3 (1, All), Then 3 (2, Current), Start 0, Settle 0, Finish 0,
           Start 2, Settle 2, Finish 2, Start 1, Settle 1, Finish 1] s"
    by (simp_all add: ta deps del: resolves.simps)
  from T inv have i: "invoked s'' = [0, 2, 1, 3]" by simp
  have il: "\<exists>t. step (Enqueue 3 (Returns ''v'')) s = Some t \<and>
              dequeued 3 t = [4] \<and> holds 4 (Thenable (0, Current)) t"
    unfolding s_def s0_def by (simp add: model_defs holds_def)
  show ?thesis
    by (rule exI[of _ s0], rule exI[of _ s], rule exI[of _ a], rule exI[of _ s'],
        rule exI[of _ s''])
       (intro conjI s0 deps s new a ta g w no s' r1 r2 s'' i il)
qed

end
